theory Spec2Isabelle
  imports Complex_Main "HOL-Library.Log_Nat"
begin

section \<open>The Wordle solver of \<^verbatim>\<open>solver.py\<close>\<close>

text \<open>
  A shallow embedding of \<^verbatim>\<open>_feedback\<close>, \<^verbatim>\<open>select_initial_word\<close>,
  \<^verbatim>\<open>calculate_entropy\<close>, \<^verbatim>\<open>select_best_entropy_word\<close> and
  \<^verbatim>\<open>solve_wordle\<close>.

  \<^item> A Python \<^verbatim>\<open>str\<close> is a \<open>string\<close>, one \<open>char\<close> for each character; a list of
    words is a \<open>string list\<close>.
  \<^item> Every exception the source can raise is a value \<open>Inl e\<close> of \<open>py_error + 'a\<close>.
  \<^item> A \<^verbatim>\<open>Counter\<close> is a function \<open>char \<Rightarrow> int\<close> (a missing key reads 0).
  \<^item> A \<^verbatim>\<open>dict\<close> whose iteration order matters is an association list in insertion
    order with unique keys.
  \<^item> Python's \<^verbatim>\<open>float\<close> arithmetic is not fixed by the model: the operations the source
    uses are the fields of a record \<open>'f float_ops\<close> over a linearly ordered type \<open>'f\<close>, and
    every function that computes with floats takes that record as its first argument.
    \<open>real_ops\<close> is the instance with exact real arithmetic, \<open>double_ops\<close> the instance
    with the rounding of IEEE 754 binary64, which is what Python's \<^verbatim>\<open>float\<close> is.
  \<^item> The \<^verbatim>\<open>while True\<close> loop of \<^verbatim>\<open>solve_wordle\<close> is a partial function in the option
    monad: \<open>None\<close> means that the loop does not return.
  \<^item> The line printed after each attempt is appended to the field \<open>printed\<close> of the loop
    state.
\<close>

subsection \<open>Errors, floats, dictionaries\<close>

datatype py_error = IndexError | ValueError | ZeroDivisionError

record 'f float_ops =
  f_zero :: 'f
  f_half :: 'f
  f_truediv :: "int \<Rightarrow> int \<Rightarrow> 'f"
  f_add :: "'f \<Rightarrow> 'f \<Rightarrow> 'f"
  f_sub :: "'f \<Rightarrow> 'f \<Rightarrow> 'f"
  f_mul :: "'f \<Rightarrow> 'f \<Rightarrow> 'f"
  f_log2 :: "'f \<Rightarrow> 'f"

text \<open>\<open>f_zero\<close> and \<open>f_half\<close> are the literals \<^verbatim>\<open>0.0\<close> and \<^verbatim>\<open>0.5\<close>; \<open>f_truediv\<close> is
  \<^verbatim>\<open>/\<close> on two ints with a non-zero divisor; \<open>f_log2\<close> is \<^verbatim>\<open>math.log2\<close> on a positive
  argument.\<close>

definition real_ops :: "real float_ops" where
  "real_ops =
     \<lparr>f_zero = 0, f_half = 1 / 2,
      f_truediv = (\<lambda>a b. real_of_int a / real_of_int b),
      f_add = (\<lambda>x y. x + y), f_sub = (\<lambda>x y. x - y), f_mul = (\<lambda>x y. x * y),
      f_log2 = (\<lambda>x. log 2 x)\<rparr>"

text \<open>Python's \<^verbatim>\<open>float\<close> is the IEEE 754 binary64 format. A finite double is a rational
  number, and \<^verbatim>\<open>/\<close> on ints, \<^verbatim>\<open>+\<close>, \<^verbatim>\<open>-\<close> and \<^verbatim>\<open>*\<close> return the exact result rounded to the
  nearest double, ties to the even significand. \<open>round_double\<close> is that rounding: 53
  significant bits down to the exponent \<open>-1022\<close>, multiples of \<open>2 ^ -1074\<close> below. Signed
  zeros, infinities and NaN are not modelled; no value computed here is large enough to
  overflow. \<^verbatim>\<open>math.log2\<close> belongs to the C library, which does not fix its results to the
  last bit: it is the parameter \<open>lg\<close> of \<open>double_ops\<close>.\<close>

definition pow2 :: "int \<Rightarrow> rat" where
  "pow2 k = (if 0 \<le> k then 2 ^ nat k else 1 / 2 ^ nat (- k))"

text \<open>The nearest integer, the even one of the two when they are equally near.\<close>

definition round_even :: "rat \<Rightarrow> int" where
  "round_even y =
     (let f = \<lfloor>y\<rfloor>; r = y - of_int f
      in if r < 1 / 2 then f else if 1 / 2 < r then f + 1 else if even f then f else f + 1)"

text \<open>The binary exponent of a positive rational: \<open>pow2 (ilog2 x) \<le> x < pow2 (ilog2 x + 1)\<close>.\<close>

definition ilog2 :: "rat \<Rightarrow> int" where
  "ilog2 x =
     (let (a, b) = quotient_of x; k = bitlen a - bitlen b
      in if pow2 k \<le> x then k else k - 1)"

definition round_double :: "rat \<Rightarrow> rat" where
  "round_double x =
     (if x = 0 then 0
      else let q = max (ilog2 \<bar>x\<bar>) (- 1022) - 52
           in sgn x * of_int (round_even (\<bar>x\<bar> / pow2 q)) * pow2 q)"

definition double_ops :: "(rat \<Rightarrow> rat) \<Rightarrow> rat float_ops" where
  "double_ops lg =
     \<lparr>f_zero = 0, f_half = 1 / 2,
      f_truediv = (\<lambda>a b. round_double (of_int a / of_int b)),
      f_add = (\<lambda>x y. round_double (x + y)),
      f_sub = (\<lambda>x y. round_double (x - y)),
      f_mul = (\<lambda>x y. round_double (x * y)),
      f_log2 = lg\<rparr>"

text \<open>\<^verbatim>\<open>a / b\<close> on ints raises \<^verbatim>\<open>ZeroDivisionError\<close> when \<^verbatim>\<open>b\<close> is 0.\<close>

definition py_truediv :: "'f float_ops \<Rightarrow> int \<Rightarrow> int \<Rightarrow> py_error + 'f" where
  "py_truediv ar a b = (if b = 0 then Inl ZeroDivisionError else Inr (f_truediv ar a b))"

text \<open>\<^verbatim>\<open>math.log2(x)\<close> raises \<^verbatim>\<open>ValueError\<close> when \<^verbatim>\<open>x\<close> is not positive.\<close>

definition py_log2 :: "('f::linorder) float_ops \<Rightarrow> 'f \<Rightarrow> py_error + 'f" where
  "py_log2 ar x = (if x \<le> f_zero ar then Inl ValueError else Inr (f_log2 ar x))"

text \<open>\<^verbatim>\<open>xs.index(x)\<close>: the first position of \<^verbatim>\<open>x\<close>, \<^verbatim>\<open>ValueError\<close> when there is none.\<close>

fun index_of :: "'a list \<Rightarrow> 'a \<Rightarrow> py_error + nat" where
  "index_of [] x = Inl ValueError"
| "index_of (y # ys) x =
     (if y = x then Inr 0
      else (case index_of ys x of Inl e \<Rightarrow> Inl e | Inr n \<Rightarrow> Inr (Suc n)))"

text \<open>\<^verbatim>\<open>d[k] = v\<close>: an existing key keeps its place, a new key goes to the end.\<close>

fun dict_set :: "('k \<times> 'v) list \<Rightarrow> 'k \<Rightarrow> 'v \<Rightarrow> ('k \<times> 'v) list" where
  "dict_set [] k v = [(k, v)]"
| "dict_set ((k', v') # d) k v =
     (if k' = k then (k, v) # d else (k', v') # dict_set d k v)"

text \<open>\<^verbatim>\<open>d[k] += 1\<close> on a \<^verbatim>\<open>defaultdict(int)\<close>: a missing key starts from 0.\<close>

fun dict_incr :: "('k \<times> int) list \<Rightarrow> 'k \<Rightarrow> ('k \<times> int) list" where
  "dict_incr [] k = [(k, 0 + 1)]"
| "dict_incr ((k', c) # d) k =
     (if k' = k then (k, c + 1) # d else (k', c) # dict_incr d k)"

text \<open>\<^verbatim>\<open>max(d, key=d.get)\<close>: the keys are visited in insertion order, each with its own
  value as the key of the comparison; the running maximum is replaced only by a strictly
  greater value; an empty dictionary raises \<^verbatim>\<open>ValueError\<close>.\<close>

fun max_by_value :: "('k \<times> 'v::linorder) list \<Rightarrow> py_error + 'k" where
  "max_by_value [] = Inl ValueError"
| "max_by_value (kv # d) =
     Inr (fst (foldl (\<lambda>best y. if snd y > snd best then y else best) kv d))"

subsection \<open>\<^verbatim>\<open>_feedback\<close>\<close>

text \<open>The first loop: position \<open>i\<close> of the guess against \<^verbatim>\<open>answer[i]\<close>. Reading
  \<^verbatim>\<open>answer[i]\<close> and writing \<^verbatim>\<open>feedback[i]\<close> raise \<^verbatim>\<open>IndexError\<close> out of range.\<close>

fun first_pass ::
  "string \<Rightarrow> nat \<Rightarrow> string \<Rightarrow> string \<Rightarrow> char option list \<Rightarrow>
     py_error + (string \<times> char option list)" where
  "first_pass answer i [] fb answer_remaining = Inr (fb, answer_remaining)"
| "first_pass answer i (g_char # gs) fb answer_remaining =
     (if length answer \<le> i then Inl IndexError
      else if g_char = answer ! i then
        (if length fb \<le> i then Inl IndexError
         else first_pass answer (Suc i) gs (fb[i := CHR ''G'']) (answer_remaining[i := None]))
      else first_pass answer (Suc i) gs fb answer_remaining)"

text \<open>The second loop: a position still \<^verbatim>\<open>'B'\<close> whose letter is left in
  \<^verbatim>\<open>answer_remaining\<close> becomes \<^verbatim>\<open>'Y'\<close> and uses up the first such letter.\<close>

fun second_pass ::
  "nat \<Rightarrow> string \<Rightarrow> string \<Rightarrow> char option list \<Rightarrow>
     py_error + (string \<times> char option list)" where
  "second_pass i [] fb answer_remaining = Inr (fb, answer_remaining)"
| "second_pass i (g_char # gs) fb answer_remaining =
     (if length fb \<le> i then Inl IndexError
      else if fb ! i = CHR ''B'' \<and> Some g_char \<in> set answer_remaining then
        (case index_of answer_remaining (Some g_char) of
           Inl e \<Rightarrow> Inl e
         | Inr j \<Rightarrow> second_pass (Suc i) gs (fb[i := CHR ''Y'']) (answer_remaining[j := None]))
      else second_pass (Suc i) gs fb answer_remaining)"

definition feedback :: "string \<Rightarrow> string \<Rightarrow> py_error + string" where
  "feedback guess answer =
     (case first_pass answer 0 guess (replicate 5 CHR ''B'') (map Some answer) of
        Inl e \<Rightarrow> Inl e
      | Inr (fb, answer_remaining) \<Rightarrow>
          (case second_pass 0 guess fb answer_remaining of
             Inl e \<Rightarrow> Inl e
           | Inr (fb', answer_remaining') \<Rightarrow> Inr fb'))"

subsection \<open>\<^verbatim>\<open>select_initial_word\<close>\<close>

type_synonym counter = "char \<Rightarrow> int"

text \<open>\<^verbatim>\<open>for i, ch in enumerate(word): position_counts[i][ch] += 1\<close>\<close>

fun count_positions :: "nat \<Rightarrow> string \<Rightarrow> counter list \<Rightarrow> py_error + counter list" where
  "count_positions i [] position_counts = Inr position_counts"
| "count_positions i (ch # cs) position_counts =
     (if length position_counts \<le> i then Inl IndexError
      else count_positions (Suc i) cs
             (position_counts[i := (position_counts ! i)(ch := (position_counts ! i) ch + 1)]))"

text \<open>\<^verbatim>\<open>overall_counts.update(set(word))\<close>: each distinct letter of the word once.\<close>

definition counter_update :: "counter \<Rightarrow> char list \<Rightarrow> counter" where
  "counter_update c xs = fold (\<lambda>x m. m(x := m x + 1)) xs c"

fun count_words ::
  "string list \<Rightarrow> counter list \<Rightarrow> counter \<Rightarrow> py_error + (counter list \<times> counter)" where
  "count_words [] position_counts overall_counts = Inr (position_counts, overall_counts)"
| "count_words (word # ws) position_counts overall_counts =
     (case count_positions 0 word position_counts of
        Inl e \<Rightarrow> Inl e
      | Inr position_counts' \<Rightarrow>
          count_words ws position_counts' (counter_update overall_counts (remdups word)))"

text \<open>The body of the scoring loop over the letters of one word.\<close>

fun score_word ::
  "'f float_ops \<Rightarrow> counter list \<Rightarrow> counter \<Rightarrow> int \<Rightarrow> nat \<Rightarrow> string \<Rightarrow> 'f \<Rightarrow> char set \<Rightarrow>
     py_error + 'f" where
  "score_word ar position_counts overall_counts total_candidates i [] score used_letters =
     Inr score"
| "score_word ar position_counts overall_counts total_candidates i (ch # cs) score used_letters =
     (if length position_counts \<le> i then Inl IndexError
      else
        (case py_truediv ar ((position_counts ! i) ch) total_candidates of
           Inl e \<Rightarrow> Inl e
         | Inr freq_pos \<Rightarrow>
             (let score1 = f_add ar score freq_pos in
              if ch \<notin> used_letters then
                (case py_truediv ar (overall_counts ch - (position_counts ! i) ch)
                        total_candidates of
                   Inl e \<Rightarrow> Inl e
                 | Inr elsewhere \<Rightarrow>
                     score_word ar position_counts overall_counts total_candidates (Suc i) cs
                       (f_add ar score1 (f_mul ar (f_half ar) elsewhere))
                       (insert ch used_letters))
              else
                score_word ar position_counts overall_counts total_candidates (Suc i) cs
                  score1 used_letters)))"

fun score_words ::
  "'f float_ops \<Rightarrow> counter list \<Rightarrow> counter \<Rightarrow> int \<Rightarrow> string list \<Rightarrow> (string \<times> 'f) list \<Rightarrow>
     py_error + (string \<times> 'f) list" where
  "score_words ar position_counts overall_counts total_candidates [] scores = Inr scores"
| "score_words ar position_counts overall_counts total_candidates (word # ws) scores =
     (case score_word ar position_counts overall_counts total_candidates 0 word (f_zero ar) {} of
        Inl e \<Rightarrow> Inl e
      | Inr score \<Rightarrow>
          score_words ar position_counts overall_counts total_candidates ws
            (dict_set scores word score))"

definition select_initial_word ::
  "('f::linorder) float_ops \<Rightarrow> string list \<Rightarrow> py_error + string" where
  "select_initial_word ar candidates =
     (case count_words candidates (replicate 5 (\<lambda>c. 0)) (\<lambda>c. 0) of
        Inl e \<Rightarrow> Inl e
      | Inr (position_counts, overall_counts) \<Rightarrow>
          (case score_words ar position_counts overall_counts (int (length candidates))
                  candidates [] of
             Inl e \<Rightarrow> Inl e
           | Inr scores \<Rightarrow> max_by_value scores))"

subsection \<open>\<^verbatim>\<open>calculate_entropy\<close> and \<^verbatim>\<open>select_best_entropy_word\<close>\<close>

fun count_patterns ::
  "string \<Rightarrow> string list \<Rightarrow> (string \<times> int) list \<Rightarrow> py_error + (string \<times> int) list" where
  "count_patterns guess [] pattern_counts = Inr pattern_counts"
| "count_patterns guess (word # ws) pattern_counts =
     (case feedback guess word of
        Inl e \<Rightarrow> Inl e
      | Inr pattern \<Rightarrow> count_patterns guess ws (dict_incr pattern_counts pattern))"

fun sum_entropy :: "('f::linorder) float_ops \<Rightarrow> int \<Rightarrow> int list \<Rightarrow> 'f \<Rightarrow> py_error + 'f" where
  "sum_entropy ar total' [] entropy = Inr entropy"
| "sum_entropy ar total' (count # cs) entropy =
     (case py_truediv ar count total' of
        Inl e \<Rightarrow> Inl e
      | Inr p \<Rightarrow>
          (case py_log2 ar p of
             Inl e \<Rightarrow> Inl e
           | Inr l \<Rightarrow> sum_entropy ar total' cs (f_sub ar entropy (f_mul ar p l))))"

definition calculate_entropy ::
  "('f::linorder) float_ops \<Rightarrow> string \<Rightarrow> string list \<Rightarrow> py_error + 'f" where
  "calculate_entropy ar guess candidates =
     (case count_patterns guess candidates [] of
        Inl e \<Rightarrow> Inl e
      | Inr pattern_counts \<Rightarrow>
          sum_entropy ar (int (length candidates)) (map snd pattern_counts) (f_zero ar))"

text \<open>The dictionary comprehension \<^verbatim>\<open>{word: calculate_entropy(word, candidates) ...}\<close>.\<close>

fun entropy_table ::
  "('f::linorder) float_ops \<Rightarrow> string list \<Rightarrow> string list \<Rightarrow> (string \<times> 'f) list \<Rightarrow>
     py_error + (string \<times> 'f) list" where
  "entropy_table ar candidates [] entropies = Inr entropies"
| "entropy_table ar candidates (word # ws) entropies =
     (case calculate_entropy ar word candidates of
        Inl e \<Rightarrow> Inl e
      | Inr h \<Rightarrow> entropy_table ar candidates ws (dict_set entropies word h))"

definition select_best_entropy_word ::
  "('f::linorder) float_ops \<Rightarrow> string list \<Rightarrow> py_error + string" where
  "select_best_entropy_word ar candidates =
     (case entropy_table ar candidates candidates [] of
        Inl e \<Rightarrow> Inl e
      | Inr entropies \<Rightarrow> max_by_value entropies)"

subsection \<open>\<^verbatim>\<open>solve_wordle\<close>\<close>

text \<open>\<^verbatim>\<open>[w for w in remaining if _feedback(guess, w) == feedback]\<close>\<close>

fun filter_remaining :: "string \<Rightarrow> string \<Rightarrow> string list \<Rightarrow> py_error + string list" where
  "filter_remaining guess fb [] = Inr []"
| "filter_remaining guess fb (w # ws) =
     (case feedback guess w of
        Inl e \<Rightarrow> Inl e
      | Inr f \<Rightarrow>
          (case filter_remaining guess fb ws of
             Inl e \<Rightarrow> Inl e
           | Inr r \<Rightarrow> Inr (if f = fb then w # r else r)))"

text \<open>A printed line: attempt number, guess, feedback, number of remaining words.\<close>

type_synonym printed_line = "nat \<times> string \<times> string \<times> nat"

record solver_state =
  remaining :: "string list"
  attempts :: "string list"
  printed :: "printed_line list"

text \<open>One turn of the loop; the boolean is the condition of the \<^verbatim>\<open>break\<close>.\<close>

definition loop_body ::
  "('f::linorder) float_ops \<Rightarrow> string \<Rightarrow> solver_state \<Rightarrow> py_error + (solver_state \<times> bool)" where
  "loop_body ar correct_word s =
     (case (if attempts s = [] then select_initial_word ar (remaining s)
            else select_best_entropy_word ar (remaining s)) of
        Inl e \<Rightarrow> Inl e
      | Inr guess \<Rightarrow>
          (let attempts' = attempts s @ [guess] in
           case feedback guess correct_word of
             Inl e \<Rightarrow> Inl e
           | Inr fb \<Rightarrow>
               (case filter_remaining guess fb (remaining s) of
                  Inl e \<Rightarrow> Inl e
                | Inr remaining' \<Rightarrow>
                    Inr (\<lparr>remaining = remaining', attempts = attempts',
                          printed = printed s @ [(length attempts', guess, fb, length remaining')]\<rparr>,
                         guess = correct_word \<or> remaining' = []))))"

partial_function (option) solve_loop ::
  "('f::linorder) float_ops \<Rightarrow> string \<Rightarrow> solver_state \<Rightarrow> (py_error + solver_state) option" where
  "solve_loop ar correct_word s =
     (case loop_body ar correct_word s of
        Inl e \<Rightarrow> Some (Inl e)
      | Inr (s', stop) \<Rightarrow> if stop then Some (Inr s') else solve_loop ar correct_word s')"

text \<open>The result is the returned list \<^verbatim>\<open>attempts\<close> together with the printed lines.\<close>

definition solve_wordle ::
  "('f::linorder) float_ops \<Rightarrow> string list \<Rightarrow> string \<Rightarrow>
     (py_error + (string list \<times> printed_line list)) option" where
  "solve_wordle ar candidates correct_word =
     map_option (map_sum id (\<lambda>s. (attempts s, printed s)))
       (solve_loop ar correct_word \<lparr>remaining = candidates, attempts = [], printed = []\<rparr>)"

text \<open>The states of the loop: \<open>loop_state ar candidates correct_word (s, stop)\<close> holds
  when \<open>s\<close> is the state at the start of the first turn (\<open>stop\<close> is false) or the state
  after some turn of the run on \<open>candidates\<close>, where \<open>stop\<close> tells whether that turn
  breaks out of the loop.\<close>

inductive loop_state ::
  "('f::linorder) float_ops \<Rightarrow> string list \<Rightarrow> string \<Rightarrow> solver_state \<times> bool \<Rightarrow> bool"
  for ar :: "'f float_ops" and candidates :: "string list" and correct_word :: string where
  start: "loop_state ar candidates correct_word
            (\<lparr>remaining = candidates, attempts = [], printed = []\<rparr>, False)"
| turn: "loop_state ar candidates correct_word (s, False) \<Longrightarrow>
         loop_body ar correct_word s = Inr (s', stop) \<Longrightarrow>
         loop_state ar candidates correct_word (s', stop)"

subsection \<open>Notions used in the statements\<close>

text \<open>The arithmetic is usable on a list of \<open>n\<close> words when the quotient of a positive
  count by a total of at most \<open>n\<close> is positive, so that \<^verbatim>\<open>math.log2\<close> accepts it. This is
  the only assumption made on the float operations, and only where the entropy is
  computed; exact real arithmetic satisfies it for every \<open>n\<close>.\<close>

definition quotients_positive :: "('f::linorder) float_ops \<Rightarrow> int \<Rightarrow> bool" where
  "quotients_positive ar n =
     (\<forall>c t. 0 < c \<and> c \<le> t \<and> t \<le> n \<longrightarrow> f_zero ar < f_truediv ar c t)"

text \<open>What the entropy needs of the arithmetic on a list of \<open>n\<close> words, for a count \<open>c\<close> of
  a total \<open>t\<close> of at most \<open>n\<close>, with the share \<open>p = c / t\<close> and the term \<open>x = p * log2 p\<close>: the
  share is positive; when \<open>c = t\<close>, subtracting the term from zero gives zero; when
  \<open>c < t\<close>, subtracting the term from a sum that is not negative gives a positive sum.
  Exact real arithmetic has these properties (\<open>real_ops_entropy_signs\<close>), and so have
  doubles on lists of at most \<open>2 ^ 53\<close> words when \<^verbatim>\<open>math.log2\<close> has the properties
  \<open>log2_signs\<close> below (\<open>double_ops_entropy_signs\<close>).\<close>

definition entropy_signs :: "('f::linorder) float_ops \<Rightarrow> int \<Rightarrow> bool" where
  "entropy_signs ar n =
     (\<forall>c t. 0 < c \<and> c \<le> t \<and> t \<le> n \<longrightarrow>
        (let p = f_truediv ar c t; x = f_mul ar p (f_log2 ar p)
         in f_zero ar < p \<and>
            (c = t \<longrightarrow> f_sub ar (f_zero ar) x = f_zero ar) \<and>
            (c < t \<longrightarrow> (\<forall>e. f_zero ar \<le> e \<longrightarrow> f_zero ar < f_sub ar e x))))"

text \<open>What the sign of the entropy needs of \<^verbatim>\<open>math.log2\<close> on doubles: it is exact at 1, and
  at most \<open>- 2 ^ - 53\<close> on the positive values up to \<open>1 - 2 ^ - 53\<close>, the largest double
  below 1. The binary logarithm has both properties (\<open>log2_real_signs\<close>), and so has
  every monotone rounding of it to doubles, \<open>- 2 ^ - 53\<close> being a double.\<close>

definition log2_signs :: "(rat \<Rightarrow> rat) \<Rightarrow> bool" where
  "log2_signs lg =
     (lg 1 = 0 \<and> (\<forall>x. 0 < x \<and> x \<le> 1 - pow2 (- 53) \<longrightarrow> lg x \<le> - pow2 (- 53)))"

text \<open>The keys of a dictionary filled in the order of a list: every element at its first
  occurrence.\<close>

definition insert_key :: "'a list \<Rightarrow> 'a \<Rightarrow> 'a list" where
  "insert_key ks k = (if k \<in> set ks then ks else ks @ [k])"

definition keys_in_order :: "'a list \<Rightarrow> 'a list \<Rightarrow> 'a list" where
  "keys_in_order ks xs = foldl insert_key ks xs"

text \<open>The counts of the initial selection: the number of words with a given letter at a
  given position, and the number of words that contain a letter.\<close>

definition position_count :: "string list \<Rightarrow> nat \<Rightarrow> char \<Rightarrow> int" where
  "position_count C i c = int (length (filter (\<lambda>w. i < length w \<and> w ! i = c) C))"

definition containing_count :: "string list \<Rightarrow> char \<Rightarrow> int" where
  "containing_count C c = int (length (filter (\<lambda>w. c \<in> set w) C))"

text \<open>The score as the code computes it, with the float operations in the order of the
  code: position by position the rounded position frequency is added, and at the first
  occurrence of a letter in the word half the rounded frequency of the letter elsewhere.\<close>

definition computed_score_step :: "'f float_ops \<Rightarrow> string list \<Rightarrow> string \<Rightarrow> 'f \<Rightarrow> nat \<Rightarrow> 'f" where
  "computed_score_step ar C w s i =
     (let s1 = f_add ar s (f_truediv ar (position_count C i (w ! i)) (int (length C)))
      in if w ! i \<in> set (take i w) then s1
         else f_add ar s1
                (f_mul ar (f_half ar)
                   (f_truediv ar (containing_count C (w ! i) - position_count C i (w ! i))
                      (int (length C)))))"

definition computed_score :: "'f float_ops \<Rightarrow> string list \<Rightarrow> string \<Rightarrow> 'f" where
  "computed_score ar C w = foldl (computed_score_step ar C w) (f_zero ar) [0..<5]"

text \<open>The score as the specification defines it, a real number: the sum over the
  positions of the position frequency and, at the first occurrence of a letter in the
  word, half the frequency of the letter elsewhere.\<close>

definition spec_score :: "string list \<Rightarrow> string \<Rightarrow> real" where
  "spec_score C w =
     (\<Sum>i<5. real_of_int (position_count C i (w ! i)) / real (length C) +
        (if w ! i \<in> set (take i w) then 0
         else 1 / 2 * (real_of_int (containing_count C (w ! i) - position_count C i (w ! i)) /
                real (length C))))"

text \<open>The term of one position in the score of the specification, as a rational.\<close>

definition score_term :: "string list \<Rightarrow> string \<Rightarrow> nat \<Rightarrow> rat" where
  "score_term C w i =
     of_int (position_count C i (w ! i)) / of_int (int (length C)) +
     (if w ! i \<in> set (take i w) then 0
      else 1 / 2 * (of_int (containing_count C (w ! i) - position_count C i (w ! i)) /
             of_int (int (length C))))"

text \<open>The probability of a feedback pattern in the partition of \<open>C\<close> by the guess \<open>g\<close>.\<close>

definition pattern_count :: "string \<Rightarrow> string list \<Rightarrow> string \<Rightarrow> int" where
  "pattern_count g C k = int (length (filter (\<lambda>w. feedback g w = Inr k) C))"

definition pattern_prob :: "string \<Rightarrow> string list \<Rightarrow> string \<Rightarrow> real" where
  "pattern_prob g C k = real_of_int (pattern_count g C k) / real_of_int (int (length C))"

definition patterns :: "string \<Rightarrow> string list \<Rightarrow> string set" where
  "patterns g C = {k. \<exists>w\<in>set C. feedback g w = Inr k}"

text \<open>The fields of a printed line.\<close>

definition line_guess :: "printed_line \<Rightarrow> string" where
  "line_guess l = fst (snd l)"

definition line_remaining :: "printed_line \<Rightarrow> nat" where
  "line_remaining l = snd (snd (snd l))"

section \<open>Feedback\<close>

text \<open>When the guess is no longer than the answer and has at most five letters, neither
  pass raises. The first pass writes \<open>G\<close> exactly at the positions where guess and answer
  agree, and the second pass neither adds nor removes a \<open>G\<close>.\<close>

lemma replicate_five: "replicate 5 x = [x, x, x, x, x]"
  by (simp add: numeral_eq_Suc)

lemma index_of_member:
  "x \<in> set xs \<Longrightarrow> \<exists>j. index_of xs x = Inr j"
  by (induction xs) auto

lemma first_pass_ok:
  "i + length gs \<le> length answer \<Longrightarrow> i + length gs \<le> length fb \<Longrightarrow>
   \<exists>fb' rem'. first_pass answer i gs fb rem = Inr (fb', rem') \<and> length fb' = length fb \<and>
     (\<forall>j<length fb. fb' ! j =
        (if i \<le> j \<and> j < i + length gs \<and> gs ! (j - i) = answer ! j then CHR ''G'' else fb ! j))"
proof (induction gs arbitrary: i fb rem)
  case Nil
  then show ?case by auto
next
  case (Cons g gs)
  have lt: "i < length answer" "i < length fb" using Cons.prems by auto
  define fb0 where "fb0 = (if g = answer ! i then fb[i := CHR ''G''] else fb)"
  define rem0 where "rem0 = (if g = answer ! i then rem[i := None] else rem)"
  have len0: "length fb0 = length fb" by (simp add: fb0_def)
  have unfold: "first_pass answer i (g # gs) fb rem = first_pass answer (Suc i) gs fb0 rem0"
    using lt by (simp add: fb0_def rem0_def)
  from Cons.IH [of "Suc i" fb0 rem0] Cons.prems len0
  obtain fb' rem' where r: "first_pass answer (Suc i) gs fb0 rem0 = Inr (fb', rem')"
      "length fb' = length fb"
      "\<forall>j<length fb. fb' ! j =
        (if Suc i \<le> j \<and> j < Suc i + length gs \<and> gs ! (j - Suc i) = answer ! j then CHR ''G'' else fb0 ! j)"
    by auto
  have "fb' ! j =
        (if i \<le> j \<and> j < i + length (g # gs) \<and> (g # gs) ! (j - i) = answer ! j then CHR ''G'' else fb ! j)"
    if j: "j < length fb" for j
  proof (cases "j = i")
    case True
    then show ?thesis using r(3) j lt by (simp add: fb0_def)
  next
    case False
    show ?thesis
    proof (cases "j < i")
      case True
      then show ?thesis using r(3) j lt by (simp add: fb0_def)
    next
      case False
      with \<open>j \<noteq> i\<close> obtain d where d: "j = Suc i + d" by (metis add_Suc less_iff_Suc_add linorder_neqE_nat)
      show ?thesis using r(3) j lt unfolding d by (simp add: fb0_def)
    qed
  qed
  then show ?case using unfold r(1,2) by simp
qed

lemma second_pass_ok:
  "i + length gs \<le> length fb \<Longrightarrow>
   \<exists>fb' rem'. second_pass i gs fb rem = Inr (fb', rem') \<and> length fb' = length fb \<and>
     (\<forall>j<length fb. (fb' ! j = CHR ''G'') = (fb ! j = CHR ''G''))"
proof (induction gs arbitrary: i fb rem)
  case Nil
  then show ?case by simp
next
  case (Cons g gs)
  have lt: "i < length fb" using Cons.prems by auto
  show ?case
  proof (cases "fb ! i = CHR ''B'' \<and> Some g \<in> set rem")
    case True
    then obtain k where k: "index_of rem (Some g) = Inr k"
      using index_of_member [of "Some g" rem] by auto
    have unfold: "second_pass i (g # gs) fb rem =
        second_pass (Suc i) gs (fb[i := CHR ''Y'']) (rem[k := None])"
      using True lt k by simp
    from Cons.IH [of "Suc i" "fb[i := CHR ''Y'']" "rem[k := None]"] Cons.prems
    obtain fb' rem' where r:
      "second_pass (Suc i) gs (fb[i := CHR ''Y'']) (rem[k := None]) = Inr (fb', rem')"
      "length fb' = length fb"
      "\<forall>j<length fb. (fb' ! j = CHR ''G'') = (fb[i := CHR ''Y''] ! j = CHR ''G'')"
      by auto
    have "(fb[i := CHR ''Y''] ! j = CHR ''G'') = (fb ! j = CHR ''G'')" if "j < length fb" for j
      using True that by (cases "j = i") simp_all
    then show ?thesis using unfold r by simp
  next
    case False
    have unfold: "second_pass i (g # gs) fb rem = second_pass (Suc i) gs fb rem"
      using False lt by auto
    from Cons.IH [of "Suc i" fb rem] Cons.prems
    show ?thesis unfolding unfold by simp
  qed
qed

lemma feedback_greens:
  assumes "length g \<le> length a" "length g \<le> 5"
  shows "\<exists>fb. feedback g a = Inr fb \<and> length fb = 5 \<and>
           (\<forall>j<5. (fb ! j = CHR ''G'') = (j < length g \<and> g ! j = a ! j))"
proof -
  let ?b = "replicate 5 CHR ''B''"
  from first_pass_ok [of 0 g a ?b "map Some a"] assms
  obtain fb1 rem1 where p1: "first_pass a 0 g ?b (map Some a) = Inr (fb1, rem1)"
    "length fb1 = 5"
    "\<forall>j<5. fb1 ! j = (if j < length g \<and> g ! j = a ! j then CHR ''G'' else ?b ! j)"
    by auto
  from second_pass_ok [of 0 g fb1 rem1] assms p1(2)
  obtain fb2 rem2 where p2: "second_pass 0 g fb1 rem1 = Inr (fb2, rem2)"
    "length fb2 = 5" "\<forall>j<5. (fb2 ! j = CHR ''G'') = (fb1 ! j = CHR ''G'')"
    by auto
  have "feedback g a = Inr fb2" using p1(1) p2(1) by (simp add: feedback_def)
  moreover have "\<forall>j<5. (fb2 ! j = CHR ''G'') = (j < length g \<and> g ! j = a ! j)"
    using p1(3) p2(3) by auto
  ultimately show ?thesis using p2(2) by blast
qed

lemma feedback_all_green_iff:
  assumes "length g = 5" "length a = 5"
  shows "(feedback g a = Inr ''GGGGG'') = (g = a)"
proof -
  from feedback_greens [of g a] assms
  obtain fb where fb: "feedback g a = Inr fb" "length fb = 5"
    "\<forall>j<5. (fb ! j = CHR ''G'') = (g ! j = a ! j)"
    by auto
  have g5: "''GGGGG'' = replicate 5 CHR ''G''" by (simp add: replicate_five)
  show ?thesis
  proof
    assume "feedback g a = Inr ''GGGGG''"
    then have "fb = replicate 5 CHR ''G''" using fb(1) g5 by simp
    then have "\<forall>j<5. g ! j = a ! j" using fb(3) by simp
    then show "g = a" using assms by (simp add: nth_equalityI)
  next
    assume "g = a"
    then have "\<forall>j<5. fb ! j = CHR ''G''" using fb(3) by simp
    then have "fb = replicate 5 CHR ''G''" using fb(2) by (simp add: nth_equalityI)
    then show "feedback g a = Inr ''GGGGG''" using fb(1) g5 by simp
  qed
qed

lemma feedback_self:
  assumes "length w = 5"
  shows "feedback w w = Inr ''GGGGG''"
  using feedback_all_green_iff [of w w] assms by simp

section \<open>The filter of the loop\<close>

text \<open>On words at least as long as the guess the list comprehension is \<open>filter\<close>. Whenever
  it returns, the result still holds every word of the list whose feedback is the one
  filtered for.\<close>

lemma filter_remaining_ok:
  "length g \<le> 5 \<Longrightarrow> \<forall>w\<in>set C. length g \<le> length w \<Longrightarrow>
   filter_remaining g f C = Inr (filter (\<lambda>w. feedback g w = Inr f) C)"
proof (induction C)
  case Nil
  then show ?case by simp
next
  case (Cons w C)
  from feedback_greens [of g w] Cons.prems obtain fb where "feedback g w = Inr fb"
    by auto
  then show ?case using Cons by simp
qed

lemma filter_remaining_keeps:
  "feedback g a = Inr f \<Longrightarrow> filter_remaining g f C = Inr R \<Longrightarrow> a \<in> set C \<Longrightarrow> a \<in> set R"
proof (induction C arbitrary: R)
  case Nil
  then show ?case by simp
next
  case (Cons w C)
  then show ?case by (auto split: sum.splits if_splits)
qed

section \<open>The maximum of a dictionary\<close>

text \<open>The scan of \<^verbatim>\<open>max\<close> ends on an entry that splits the dictionary in two: all
  entries before it have a strictly smaller value, and no entry has a greater one.\<close>

lemma foldl_first_max:
  fixes x :: "'k \<times> 'v::linorder"
  defines "step \<equiv> (\<lambda>best y. if snd y > snd best then y else best)"
  shows "\<exists>A B. x # xs = A @ foldl step x xs # B \<and>
           (\<forall>y\<in>set A. snd y < snd (foldl step x xs)) \<and>
           (\<forall>y\<in>set (x # xs). snd y \<le> snd (foldl step x xs))"
proof (induction xs rule: rev_induct)
  case Nil
  have "[x] = [] @ x # []" by simp
  then show ?case by fastforce
next
  case (snoc y xs)
  let ?r = "foldl step x xs"
  from snoc obtain A B where ab: "x # xs = A @ ?r # B" "\<forall>y\<in>set A. snd y < snd ?r"
    "\<forall>y\<in>set (x # xs). snd y \<le> snd ?r" by blast
  show ?case
  proof (cases "snd y > snd ?r")
    case True
    then have r: "foldl step x (xs @ [y]) = y" by (simp add: step_def)
    have "x # xs @ [y] = (x # xs) @ y # []" by simp
    moreover have "\<forall>z\<in>set (x # xs). snd z < snd y" using ab(3) True by auto
    moreover have "\<forall>z\<in>set (x # xs @ [y]). snd z \<le> snd y" using ab(3) True by auto
    ultimately show ?thesis unfolding r by blast
  next
    case False
    then have r: "foldl step x (xs @ [y]) = ?r" by (simp add: step_def)
    have "x # xs @ [y] = A @ ?r # (B @ [y])" using ab(1) by simp
    moreover have "\<forall>z\<in>set (x # xs @ [y]). snd z \<le> snd ?r" using ab(3) False by auto
    ultimately show ?thesis unfolding r using ab(2) by blast
  qed
qed

lemma max_by_value_table:
  fixes sc :: "'k \<Rightarrow> 'v::linorder"
  assumes "L \<noteq> []"
  shows "\<exists>A r B. max_by_value (map (\<lambda>w. (w, sc w)) L) = Inr r \<and> L = A @ r # B \<and>
           (\<forall>y\<in>set A. sc y < sc r) \<and> (\<forall>y\<in>set L. sc y \<le> sc r)"
proof -
  let ?f = "\<lambda>w. (w, sc w)"
  let ?step = "\<lambda>best y :: 'k \<times> 'v. if snd y > snd best then y else best"
  from assms obtain x xs where L: "L = x # xs" by (cases L) auto
  let ?r = "foldl ?step (?f x) (map ?f xs)"
  from foldl_first_max [of "?f x" "map ?f xs"]
  obtain A' B' where ab: "?f x # map ?f xs = A' @ ?r # B'"
    "\<forall>y\<in>set A'. snd y < snd ?r" "\<forall>y\<in>set (?f x # map ?f xs). snd y \<le> snd ?r"
    by blast
  from ab(1) have "map ?f L = A' @ ?r # B'" by (simp add: L)
  then obtain A rB where m: "L = A @ rB" "map ?f A = A'" "map ?f rB = ?r # B'"
    by (auto simp: map_eq_append_conv)
  then obtain r B where rb: "rB = r # B" "?f r = ?r" "map ?f B = B'"
    by (auto simp: map_eq_Cons_conv)
  have "max_by_value (map ?f L) = Inr r" using rb(2) [symmetric] by (simp add: L)
  moreover have "L = A @ r # B" using m rb by simp
  moreover have "\<forall>y\<in>set A. sc y < sc r" using ab(2) m(2) rb(2) [symmetric] by auto
  moreover have "\<forall>y\<in>set L. sc y \<le> sc r" using ab(3) rb(2) [symmetric] L by auto
  ultimately show ?thesis by blast
qed

section \<open>Dictionaries filled from a list\<close>

text \<open>A dictionary that receives \<open>sc w\<close> for every word \<open>w\<close> of a list holds the words in
  the order of their first occurrences. An entry of that dictionary sits at the place of
  its first occurrence in the list, after all the words that occur before it.\<close>

lemma dict_set_table:
  "dict_set (map (\<lambda>w. (w, sc w)) ks) w (sc w) = map (\<lambda>w. (w, sc w)) (insert_key ks w)"
  by (induction ks) (auto simp: insert_key_def)

lemma keys_in_order_snoc:
  "keys_in_order ks (xs @ [x]) = insert_key (keys_in_order ks xs) x"
  by (simp add: keys_in_order_def)

lemma keys_in_order_Cons:
  "keys_in_order ks (x # xs) = keys_in_order (insert_key ks x) xs"
  by (simp add: keys_in_order_def)

lemma keys_in_order_Nil: "keys_in_order ks [] = ks"
  by (simp add: keys_in_order_def)

lemma set_keys_in_order: "set (keys_in_order ks xs) = set ks \<union> set xs"
  by (induction xs rule: rev_induct) (auto simp: keys_in_order_Nil keys_in_order_snoc insert_key_def)

lemma keys_first_occurrence:
  "keys_in_order [] C = A @ r # B \<Longrightarrow> \<exists>k<length C. C ! k = r \<and> (\<forall>j<k. C ! j \<in> set A)"
proof (induction C arbitrary: B rule: rev_induct)
  case Nil
  then show ?case by (simp add: keys_in_order_def)
next
  case (snoc c C)
  show ?case
  proof (cases "c \<in> set (keys_in_order [] C)")
    case True
    then have "keys_in_order [] C = A @ r # B"
      using snoc.prems by (simp add: keys_in_order_snoc insert_key_def)
    from snoc.IH [OF this] obtain k where k: "k < length C" "C ! k = r" "\<forall>j<k. C ! j \<in> set A"
      by blast
    then have "k < length (C @ [c]) \<and> (C @ [c]) ! k = r \<and> (\<forall>j<k. (C @ [c]) ! j \<in> set A)"
      by (simp add: nth_append)
    then show ?thesis by blast
  next
    case False
    then have eq: "keys_in_order [] C @ [c] = A @ r # B"
      using snoc.prems by (simp add: keys_in_order_snoc insert_key_def)
    show ?thesis
    proof (cases B rule: rev_cases)
      case Nil
      with eq have a: "keys_in_order [] C = A" and r: "c = r" by auto
      have "\<forall>j<length C. (C @ [c]) ! j \<in> set A"
        using set_keys_in_order [of "[]" C] a by (auto simp: nth_append)
      then have "length C < length (C @ [c]) \<and> (C @ [c]) ! length C = r \<and>
        (\<forall>j<length C. (C @ [c]) ! j \<in> set A)" using r by simp
      then show ?thesis by blast
    next
      case (snoc B' b)
      with eq have "keys_in_order [] C = A @ r # B'" by simp
      from snoc.IH [OF this] obtain k where k: "k < length C" "C ! k = r" "\<forall>j<k. C ! j \<in> set A"
        by blast
      then have "k < length (C @ [c]) \<and> (C @ [c]) ! k = r \<and> (\<forall>j<k. (C @ [c]) ! j \<in> set A)"
        by (simp add: nth_append)
      then show ?thesis by blast
    qed
  qed
qed

section \<open>The counters of the initial selection\<close>

text \<open>On words of at most five letters the counting loop does not raise, and it adds to
  the counters the numbers \<open>position_count\<close> and \<open>containing_count\<close>.\<close>

lemma count_positions_ok:
  "i + length word \<le> length pc \<Longrightarrow>
   \<exists>pc'. count_positions i word pc = Inr pc' \<and> length pc' = length pc \<and>
     (\<forall>j<length pc. \<forall>c. (pc' ! j) c =
        (pc ! j) c + (if i \<le> j \<and> j < i + length word \<and> word ! (j - i) = c then 1 else 0))"
proof (induction word arbitrary: i pc)
  case Nil
  then show ?case by auto
next
  case (Cons ch cs)
  have lt: "i < length pc" using Cons.prems by auto
  define pc0 where "pc0 = pc[i := (pc ! i)(ch := (pc ! i) ch + 1)]"
  have len0: "length pc0 = length pc" by (simp add: pc0_def)
  have unfold: "count_positions i (ch # cs) pc = count_positions (Suc i) cs pc0"
    using lt by (simp add: pc0_def)
  from Cons.IH [of "Suc i" pc0] Cons.prems len0
  obtain pc' where r: "count_positions (Suc i) cs pc0 = Inr pc'" "length pc' = length pc"
    "\<forall>j<length pc. \<forall>c. (pc' ! j) c =
        (pc0 ! j) c + (if Suc i \<le> j \<and> j < Suc i + length cs \<and> cs ! (j - Suc i) = c then 1 else 0)"
    by auto
  have "(pc' ! j) c =
        (pc ! j) c + (if i \<le> j \<and> j < i + length (ch # cs) \<and> (ch # cs) ! (j - i) = c then 1 else 0)"
    if j: "j < length pc" for j c
  proof (cases "j = i")
    case True
    then show ?thesis using r(3) j lt by (simp add: pc0_def)
  next
    case False
    show ?thesis
    proof (cases "j < i")
      case True
      then show ?thesis using r(3) j lt by (simp add: pc0_def)
    next
      case False
      with \<open>j \<noteq> i\<close> obtain d where d: "j = Suc i + d"
        by (metis add_Suc less_iff_Suc_add linorder_neqE_nat)
      show ?thesis using r(3) j lt unfolding d by (simp add: pc0_def)
    qed
  qed
  then show ?case using unfold r(1,2) by simp
qed

lemma counter_update_distinct:
  "distinct xs \<Longrightarrow> counter_update m xs c = m c + (if c \<in> set xs then 1 else 0)"
  unfolding counter_update_def
  by (induction xs arbitrary: m) auto

lemma count_words_ok:
  "\<forall>w\<in>set C. length w \<le> length pc \<Longrightarrow>
   \<exists>pc' oc'. count_words C pc oc = Inr (pc', oc') \<and> length pc' = length pc \<and>
     (\<forall>j<length pc. \<forall>c. (pc' ! j) c = (pc ! j) c + position_count C j c) \<and>
     (\<forall>c. oc' c = oc c + containing_count C c)"
proof (induction C arbitrary: pc oc)
  case Nil
  then show ?case by (simp add: position_count_def containing_count_def)
next
  case (Cons w C)
  from count_positions_ok [of 0 w pc] Cons.prems
  obtain pc1 where p1: "count_positions 0 w pc = Inr pc1" "length pc1 = length pc"
    "\<forall>j<length pc. \<forall>c. (pc1 ! j) c = (pc ! j) c + (if j < length w \<and> w ! j = c then 1 else 0)"
    by auto
  define oc1 where "oc1 = counter_update oc (remdups w)"
  have o1: "oc1 c = oc c + (if c \<in> set w then 1 else 0)" for c
    by (simp add: oc1_def counter_update_distinct)
  from Cons.IH [of pc1 oc1] Cons.prems p1(2)
  obtain pc' oc' where r: "count_words C pc1 oc1 = Inr (pc', oc')" "length pc' = length pc"
    "\<forall>j<length pc. \<forall>c. (pc' ! j) c = (pc1 ! j) c + position_count C j c"
    "\<forall>c. oc' c = oc1 c + containing_count C c"
    by auto
  have "count_words (w # C) pc oc = Inr (pc', oc')"
    using p1(1) r(1) by (simp add: oc1_def)
  moreover have "\<forall>j<length pc. \<forall>c. (pc' ! j) c = (pc ! j) c + position_count (w # C) j c"
    using r(3) p1(3) by (simp add: position_count_def)
  moreover have "\<forall>c. oc' c = oc c + containing_count (w # C) c"
    using r(4) o1 by (simp add: containing_count_def)
  ultimately show ?case using r(2) by simp
qed

section \<open>The score of a word\<close>

text \<open>With the counters of the whole list, the scoring loop computes \<open>computed_score\<close>;
  \<open>used_letters\<close> holds the letters before the current position.\<close>

lemma score_word_ok:
  assumes "tot \<noteq> 0" "length w \<le> length pc"
  shows "i \<le> length w \<Longrightarrow>
    score_word ar pc oc tot i (drop i w) s (set (take i w)) =
      Inr (foldl (\<lambda>s i.
             (let s1 = f_add ar s (f_truediv ar ((pc ! i) (w ! i)) tot)
              in if w ! i \<in> set (take i w) then s1
                 else f_add ar s1
                        (f_mul ar (f_half ar) (f_truediv ar (oc (w ! i) - (pc ! i) (w ! i)) tot))))
           s [i..<length w])"
proof (induction "length w - i" arbitrary: i s)
  case 0
  then show ?case by simp
next
  case (Suc n)
  then have lt: "i < length w" by simp
  have d: "drop i w = w ! i # drop (Suc i) w" using lt by (simp add: Cons_nth_drop_Suc)
  have t: "set (take (Suc i) w) = insert (w ! i) (set (take i w))"
    using lt by (simp add: take_Suc_conv_app_nth)
  have u: "[i..<length w] = i # [Suc i..<length w]" using lt by (simp add: upt_conv_Cons)
  have ih: "\<And>s. score_word ar pc oc tot (Suc i) (drop (Suc i) w) s (set (take (Suc i) w)) =
      Inr (foldl (\<lambda>s i.
             (let s1 = f_add ar s (f_truediv ar ((pc ! i) (w ! i)) tot)
              in if w ! i \<in> set (take i w) then s1
                 else f_add ar s1
                        (f_mul ar (f_half ar) (f_truediv ar (oc (w ! i) - (pc ! i) (w ! i)) tot))))
           s [Suc i..<length w])"
    using Suc.hyps(1) [of "Suc i"] Suc.hyps(2) lt by simp
  have ip: "\<not> length pc \<le> i" using lt assms(2) by simp
  show ?case
    unfolding d u
    using ip assms(1) ih
    by (auto simp add: py_truediv_def Let_def t insert_absorb simp del: upt_Suc)
qed

lemma score_word_spec:
  assumes "C \<noteq> []" "length w = 5" "length pc = 5"
    and pc: "\<forall>j<5. \<forall>c. (pc ! j) c = position_count C j c"
    and oc: "\<forall>c. oc c = containing_count C c"
  shows "score_word ar pc oc (int (length C)) 0 w (f_zero ar) {} = Inr (computed_score ar C w)"
proof -
  let ?step = "\<lambda>s i.
             (let s1 = f_add ar s (f_truediv ar ((pc ! i) (w ! i)) (int (length C)))
              in if w ! i \<in> set (take i w) then s1
                 else f_add ar s1
                        (f_mul ar (f_half ar)
                          (f_truediv ar (oc (w ! i) - (pc ! i) (w ! i)) (int (length C)))))"
  have st: "?step s x = computed_score_step ar C w s x" if "x < 5" for s x
  proof -
    have "(pc ! x) (w ! x) = position_count C x (w ! x)" using pc that by simp
    moreover have "oc (w ! x) = containing_count C (w ! x)" using oc by simp
    ultimately show ?thesis by (simp add: computed_score_step_def Let_def)
  qed
  have "foldl ?step (f_zero ar) [0..<5] = foldl (computed_score_step ar C w) (f_zero ar) [0..<5]"
    by (rule foldl_cong) (simp_all add: st del: upt_Suc)
  with score_word_ok [of "int (length C)" w pc 0 ar oc "f_zero ar"] assms(1-3)
  show ?thesis by (simp add: computed_score_def del: upt_Suc)
qed

lemma score_words_table:
  assumes "\<forall>w\<in>set ws. score_word ar pc oc tot 0 w (f_zero ar) {} = Inr (sc w)"
  shows "score_words ar pc oc tot ws (map (\<lambda>w. (w, sc w)) ks) =
           Inr (map (\<lambda>w. (w, sc w)) (keys_in_order ks ws))"
  using assms
proof (induction ws arbitrary: ks)
  case Nil
  then show ?case by (simp add: keys_in_order_Nil)
next
  case (Cons w ws)
  then show ?case by (simp add: dict_set_table keys_in_order_Cons)
qed

lemma select_initial_word_spec:
  fixes ar :: "('f::linorder) float_ops"
  assumes "C \<noteq> []" "\<forall>w\<in>set C. length w = 5"
  shows "\<exists>k<length C. select_initial_word ar C = Inr (C ! k) \<and>
           (\<forall>w\<in>set C. computed_score ar C w \<le> computed_score ar C (C ! k)) \<and>
           (\<forall>j<k. computed_score ar C (C ! j) < computed_score ar C (C ! k))"
proof -
  let ?sc = "computed_score ar C"
  from count_words_ok [of C "replicate 5 (\<lambda>c. 0)" "\<lambda>c. 0"] assms(2)
  obtain pc oc where c: "count_words C (replicate 5 (\<lambda>c. 0)) (\<lambda>c. 0) = Inr (pc, oc)"
    "length pc = 5" "\<forall>j<5. \<forall>c. (pc ! j) c = position_count C j c"
    "\<forall>c. oc c = containing_count C c"
    by auto
  have "score_word ar pc oc (int (length C)) 0 w (f_zero ar) {} = Inr (?sc w)"
    if "w \<in> set C" for w
    using score_word_spec [of C w pc oc ar] assms c(2,3,4) that by simp
  then have "\<forall>w\<in>set C. score_word ar pc oc (int (length C)) 0 w (f_zero ar) {} = Inr (?sc w)"
    by simp
  from score_words_table [OF this, of "[]"]
  have t: "score_words ar pc oc (int (length C)) C [] =
      Inr (map (\<lambda>w. (w, ?sc w)) (keys_in_order [] C))" by simp
  have ne: "keys_in_order [] C \<noteq> []"
    using set_keys_in_order [of "[]" C] assms(1) by (metis Un_empty set_empty)
  from max_by_value_table [OF ne, of ?sc]
  obtain A r B where m: "max_by_value (map (\<lambda>w. (w, ?sc w)) (keys_in_order [] C)) = Inr r"
    "keys_in_order [] C = A @ r # B" "\<forall>y\<in>set A. ?sc y < ?sc r"
    "\<forall>y\<in>set (keys_in_order [] C). ?sc y \<le> ?sc r"
    by blast
  from keys_first_occurrence [OF m(2)]
  obtain k where k: "k < length C" "C ! k = r" "\<forall>j<k. C ! j \<in> set A" by blast
  have "select_initial_word ar C = Inr (C ! k)"
    using c(1) t m(1) k(2) by (simp add: select_initial_word_def)
  moreover have "\<forall>w\<in>set C. ?sc w \<le> ?sc (C ! k)"
    using m(4) k(2) set_keys_in_order [of "[]" C] by simp
  moreover have "\<forall>j<k. ?sc (C ! j) < ?sc (C ! k)"
    using m(3) k(2,3) by simp
  ultimately show ?thesis using k(1) by blast
qed

text \<open>With exact real arithmetic the computed score is the score of the specification.\<close>

lemma computed_score_exact: "computed_score real_ops C w = spec_score C w"
proof -
  let ?f = "\<lambda>i. real_of_int (position_count C i (w ! i)) / real (length C) +
        (if w ! i \<in> set (take i w) then 0
         else 1 / 2 * (real_of_int (containing_count C (w ! i) - position_count C i (w ! i)) /
                real (length C)))"
  have step: "computed_score_step real_ops C w s i = s + ?f i" for s i
    by (simp add: computed_score_step_def real_ops_def Let_def)
  have "foldl (computed_score_step real_ops C w) s [0..<n] = s + (\<Sum>i<n. ?f i)" for s n
    by (induction n) (simp_all add: step)
  from this [of "f_zero real_ops" 5] show ?thesis
    by (simp add: computed_score_def spec_score_def real_ops_def)
qed

section \<open>The pattern counts\<close>

text \<open>After the counting loop of \<open>calculate_entropy\<close> the dictionary has one entry for each
  pattern that some word gives, in distinct keys, and the value of a pattern is the number
  of words that give it.\<close>

lemma dict_incr_keys: "map fst (dict_incr d k) = insert_key (map fst d) k"
  by (induction d) (force simp: insert_key_def)+

lemma dict_set_keys: "map fst (dict_set d k v) = insert_key (map fst d) k"
  by (induction d) (force simp: insert_key_def)+

lemma dict_incr_distinct:
  "distinct (map fst d) \<Longrightarrow> distinct (map fst (dict_incr d k))"
  by (simp add: dict_incr_keys insert_key_def)

lemma map_of_dict_incr:
  "map_of (dict_incr d k) =
     (map_of d)(k \<mapsto> (case map_of d k of None \<Rightarrow> 0 | Some c \<Rightarrow> c) + 1)"
proof (induction d)
  case Nil
  then show ?case by simp
next
  case (Cons kc d)
  obtain k' c where kc: "kc = (k', c)" by (cases kc)
  show ?case
  proof (cases "k' = k")
    case True
    then show ?thesis by (simp add: kc fun_eq_iff)
  next
    case False
    then show ?thesis using Cons by (simp add: kc fun_eq_iff)
  qed
qed

lemma pattern_count_snoc:
  "pattern_count g (P @ [w]) k = pattern_count g P k + (if feedback g w = Inr k then 1 else 0)"
  by (simp add: pattern_count_def)

lemma pattern_count_bounds: "0 \<le> pattern_count g P k \<and> pattern_count g P k \<le> int (length P)"
  by (simp add: pattern_count_def)

lemma count_patterns_ok:
  assumes "distinct (map fst d)"
    and "\<forall>k. map_of d k = (if 0 < pattern_count g P k then Some (pattern_count g P k) else None)"
    and "\<forall>w\<in>set ws. \<exists>k. feedback g w = Inr k"
  shows "\<exists>d'. count_patterns g ws d = Inr d' \<and> distinct (map fst d') \<and>
     (\<forall>k. map_of d' k =
        (if 0 < pattern_count g (P @ ws) k then Some (pattern_count g (P @ ws) k) else None))"
  using assms
proof (induction ws arbitrary: d P)
  case Nil
  then show ?case by simp
next
  case (Cons w ws)
  from Cons.prems(3) obtain p where p: "feedback g w = Inr p" by auto
  let ?d = "dict_incr d p"
  have d1: "distinct (map fst ?d)" using Cons.prems(1) by (rule dict_incr_distinct)
  have nn: "0 \<le> pattern_count g P k" for k using pattern_count_bounds [of g P k] by simp
  have d2: "\<forall>k. map_of ?d k =
      (if 0 < pattern_count g (P @ [w]) k then Some (pattern_count g (P @ [w]) k) else None)"
  proof
    fix k
    show "map_of ?d k =
      (if 0 < pattern_count g (P @ [w]) k then Some (pattern_count g (P @ [w]) k) else None)"
    proof (cases "k = p")
      case True
      then show ?thesis
        using Cons.prems(2) p nn [of p]
        by (simp add: map_of_dict_incr pattern_count_snoc)
    next
      case False
      then show ?thesis
        using Cons.prems(2) p
        by (simp add: map_of_dict_incr pattern_count_snoc)
    qed
  qed
  have e: "(P @ [w]) @ ws = P @ w # ws" by simp
  from Cons.IH [of ?d "P @ [w]", OF d1 d2] Cons.prems(3)
  obtain d' where "count_patterns g ws ?d = Inr d'" "distinct (map fst d')"
    "\<forall>k. map_of d' k =
        (if 0 < pattern_count g (P @ w # ws) k then Some (pattern_count g (P @ w # ws) k)
         else None)"
    unfolding e by auto
  then show ?case using p by simp
qed

lemma count_patterns_entries:
  assumes "length g \<le> 5" "\<forall>w\<in>set C. length g \<le> length w"
  shows "\<exists>d. count_patterns g C [] = Inr d \<and> distinct (map fst d) \<and>
     (\<forall>k c. ((k, c) \<in> set d) = (c = pattern_count g C k \<and> 0 < c))"
proof -
  have fb: "\<forall>w\<in>set C. \<exists>k. feedback g w = Inr k"
  proof
    fix w assume "w \<in> set C"
    with feedback_greens [of g w] assms show "\<exists>k. feedback g w = Inr k" by auto
  qed
  have "\<forall>k. map_of [] k = (if 0 < pattern_count g [] k then Some (pattern_count g [] k) else None)"
    by (simp add: pattern_count_def)
  from count_patterns_ok [of "[]" g "[]" C, OF _ this fb]
  obtain d where d: "count_patterns g C [] = Inr d" "distinct (map fst d)"
    "\<forall>k. map_of d k = (if 0 < pattern_count g C k then Some (pattern_count g C k) else None)"
    by auto
  have "((k, c) \<in> set d) = (c = pattern_count g C k \<and> 0 < c)" for k c
  proof -
    have "((k, c) \<in> set d) = (map_of d k = Some c)" using d(2) by simp
    then show ?thesis using d(3) by auto
  qed
  then show ?thesis using d(1,2) by simp
qed

section \<open>The entropy selection returns a candidate\<close>

text \<open>Every count is positive and at most the length of the list, so with positive
  quotients neither the division nor the logarithm raises, and the maximum is taken over a
  dictionary whose keys are the words of the list.\<close>

lemma quotients_positive_mono:
  "quotients_positive ar n \<Longrightarrow> m \<le> n \<Longrightarrow> quotients_positive ar m"
  by (auto simp: quotients_positive_def)

lemma sum_entropy_ok:
  fixes ar :: "('f::linorder) float_ops"
  assumes "quotients_positive ar n"
  shows "\<forall>c\<in>set cs. 0 < c \<and> c \<le> n \<Longrightarrow> \<exists>h. sum_entropy ar n cs e = Inr h"
proof (induction cs arbitrary: e)
  case Nil
  then show ?case by simp
next
  case (Cons c cs)
  then have c: "0 < c" "c \<le> n" by auto
  then have "f_zero ar < f_truediv ar c n"
    using assms by (simp add: quotients_positive_def)
  then have "py_log2 ar (f_truediv ar c n) = Inr (f_log2 ar (f_truediv ar c n))"
    by (simp add: py_log2_def)
  moreover have "py_truediv ar c n = Inr (f_truediv ar c n)"
    using c by (simp add: py_truediv_def)
  ultimately show ?case using Cons by simp
qed

lemma calculate_entropy_ok:
  fixes ar :: "('f::linorder) float_ops"
  assumes "quotients_positive ar (int (length C))" "length g \<le> 5"
    "\<forall>w\<in>set C. length g \<le> length w"
  shows "\<exists>h. calculate_entropy ar g C = Inr h"
proof -
  from count_patterns_entries [OF assms(2,3)]
  obtain d where d: "count_patterns g C [] = Inr d"
    "\<forall>k c. ((k, c) \<in> set d) = (c = pattern_count g C k \<and> 0 < c)"
    by blast
  have "\<forall>c\<in>set (map snd d). 0 < c \<and> c \<le> int (length C)"
    using d(2) pattern_count_bounds [of g C] by auto
  from sum_entropy_ok [OF assms(1) this, of "f_zero ar"]
  show ?thesis using d(1) by (simp add: calculate_entropy_def)
qed

lemma entropy_table_ok:
  fixes ar :: "('f::linorder) float_ops"
  shows "\<forall>w\<in>set ws. \<exists>h. calculate_entropy ar w C = Inr h \<Longrightarrow>
    \<exists>d'. entropy_table ar C ws d = Inr d' \<and> set (map fst d') = set (map fst d) \<union> set ws"
proof (induction ws arbitrary: d)
  case Nil
  then show ?case by simp
next
  case (Cons w ws)
  then obtain h where h: "calculate_entropy ar w C = Inr h" by auto
  from Cons.IH [of "dict_set d w h"] Cons.prems
  show ?case using h by (auto simp: dict_set_keys insert_key_def simp del: set_map)
qed

lemma max_by_value_member:
  fixes d :: "('k \<times> 'v::linorder) list"
  assumes "d \<noteq> []"
  shows "\<exists>r. max_by_value d = Inr r \<and> r \<in> set (map fst d)"
proof -
  from assms obtain x xs where d: "d = x # xs" by (cases d) auto
  let ?r = "foldl (\<lambda>best y. if snd y > snd best then y else best) x xs"
  from foldl_first_max [of x xs] obtain A B where "x # xs = A @ ?r # B" by blast
  then have "?r \<in> set (x # xs)" by (simp only: in_set_conv_decomp) blast
  then show ?thesis by (auto simp: d)
qed

lemma select_best_entropy_word_ok:
  fixes ar :: "('f::linorder) float_ops"
  assumes "quotients_positive ar (int (length C))" "C \<noteq> []" "\<forall>w\<in>set C. length w = 5"
  shows "\<exists>r. select_best_entropy_word ar C = Inr r \<and> r \<in> set C"
proof -
  have "\<forall>w\<in>set C. \<exists>h. calculate_entropy ar w C = Inr h"
  proof
    fix w assume "w \<in> set C"
    then have "length w \<le> 5" "\<forall>v\<in>set C. length w \<le> length v" using assms(3) by auto
    from calculate_entropy_ok [OF assms(1) this] show "\<exists>h. calculate_entropy ar w C = Inr h" .
  qed
  from entropy_table_ok [OF this, of "[]"]
  obtain d where d: "entropy_table ar C C [] = Inr d" "set (map fst d) = set C" by auto
  then have "d \<noteq> []" using assms(2) by auto
  from max_by_value_member [OF this] obtain r where "max_by_value d = Inr r" "r \<in> set (map fst d)"
    by blast
  then show ?thesis using d by (simp add: select_best_entropy_word_def)
qed

section \<open>The elimination loop\<close>

text \<open>One turn on a non-empty list of five-letter words guesses a word of the list and
  keeps the words with the feedback of the answer. A wrong guess is not kept, so the list
  gets shorter; the loop returns by induction on the length of the list.\<close>

lemma select_initial_word_ok:
  fixes ar :: "('f::linorder) float_ops"
  assumes "C \<noteq> []" "\<forall>w\<in>set C. length w = 5"
  shows "\<exists>r. select_initial_word ar C = Inr r \<and> r \<in> set C"
proof -
  from select_initial_word_spec [OF assms, of ar]
  obtain k where "k < length C" "select_initial_word ar C = Inr (C ! k)" by blast
  then show ?thesis by simp
qed

lemma loop_body_ok:
  fixes ar :: "('f::linorder) float_ops"
  assumes "quotients_positive ar (int (length (remaining s)))" "remaining s \<noteq> []"
    "\<forall>w\<in>set (remaining s). length w = 5" "length cw = 5"
  shows "\<exists>guess fb R. guess \<in> set (remaining s) \<and> feedback guess cw = Inr fb \<and>
           R = filter (\<lambda>w. feedback guess w = Inr fb) (remaining s) \<and>
           loop_body ar cw s =
             Inr (\<lparr>remaining = R, attempts = attempts s @ [guess],
                   printed = printed s @ [(Suc (length (attempts s)), guess, fb, length R)]\<rparr>,
                  guess = cw \<or> R = [])"
proof -
  let ?sel = "if attempts s = [] then select_initial_word ar (remaining s)
              else select_best_entropy_word ar (remaining s)"
  obtain guess where g: "?sel = Inr guess" "guess \<in> set (remaining s)"
    using select_initial_word_ok [OF assms(2,3), of ar]
      select_best_entropy_word_ok [OF assms(1,2,3)]
    by (cases "attempts s = []") auto
  then have g5: "length guess = 5" using assms(3) by simp
  from feedback_greens [of guess cw] g5 assms(4)
  obtain fb where fb: "feedback guess cw = Inr fb" by auto
  have f: "filter_remaining guess fb (remaining s) =
      Inr (filter (\<lambda>w. feedback guess w = Inr fb) (remaining s))"
    using filter_remaining_ok [of guess "remaining s" fb] g5 assms(3) by simp
  have "loop_body ar cw s =
             Inr (\<lparr>remaining = filter (\<lambda>w. feedback guess w = Inr fb) (remaining s),
                   attempts = attempts s @ [guess],
                   printed = printed s @ [(Suc (length (attempts s)), guess, fb,
                      length (filter (\<lambda>w. feedback guess w = Inr fb) (remaining s)))]\<rparr>,
                  guess = cw \<or> filter (\<lambda>w. feedback guess w = Inr fb) (remaining s) = [])"
    unfolding loop_body_def g(1) using fb f by (simp add: Let_def)
  then show ?thesis using g(2) fb by blast
qed

lemma wrong_guess_removed:
  assumes "length guess = 5" "length cw = 5" "guess \<noteq> cw" "feedback guess cw = Inr fb"
  shows "guess \<notin> set (filter (\<lambda>w. feedback guess w = Inr fb) C)"
proof -
  have "feedback guess guess = Inr ''GGGGG''" using assms(1) by (rule feedback_self)
  moreover have "fb \<noteq> ''GGGGG''"
    using feedback_all_green_iff [OF assms(1,2)] assms(3,4) by auto
  ultimately show ?thesis by simp
qed

lemma solve_loop_ok:
  fixes ar :: "('f::linorder) float_ops"
  assumes cw: "length cw = 5"
  shows "quotients_positive ar (int (length (remaining s))) \<Longrightarrow> remaining s \<noteq> [] \<Longrightarrow>
    \<forall>w\<in>set (remaining s). length w = 5 \<Longrightarrow>
    \<exists>s' new lines. solve_loop ar cw s = Some (Inr s') \<and>
      attempts s' = attempts s @ new \<and> printed s' = printed s @ lines \<and>
      new \<noteq> [] \<and> map line_guess lines = new \<and> set new \<subseteq> set (remaining s) \<and>
      length new \<le> length (remaining s) \<and>
      sorted_wrt (\<lambda>a b. b \<le> a) (length (remaining s) # map line_remaining lines) \<and>
      line_remaining (last lines) = length (remaining s') \<and>
      (cw \<in> set (remaining s) \<longrightarrow> last new = cw) \<and>
      (cw \<notin> set (remaining s) \<longrightarrow> remaining s' = [] \<and> cw \<notin> set new)"
proof (induction "length (remaining s)" arbitrary: s rule: less_induct)
  case less
  from loop_body_ok [OF less.prems cw]
  obtain guess fb R where b: "guess \<in> set (remaining s)" "feedback guess cw = Inr fb"
    "R = filter (\<lambda>w. feedback guess w = Inr fb) (remaining s)"
    "loop_body ar cw s =
             Inr (\<lparr>remaining = R, attempts = attempts s @ [guess],
                   printed = printed s @ [(Suc (length (attempts s)), guess, fb, length R)]\<rparr>,
                  guess = cw \<or> R = [])"
    by blast
  define s1 where "s1 = \<lparr>remaining = R, attempts = attempts s @ [guess],
                   printed = printed s @ [(Suc (length (attempts s)), guess, fb, length R)]\<rparr>"
  define l where "l = (Suc (length (attempts s)), guess, fb, length R)"
  have s1: "remaining s1 = R" "attempts s1 = attempts s @ [guess]" "printed s1 = printed s @ [l]"
    by (simp_all add: s1_def l_def)
  have l: "line_guess l = guess" "line_remaining l = length R"
    by (simp_all add: l_def line_guess_def line_remaining_def)
  have body: "loop_body ar cw s = Inr (s1, guess = cw \<or> R = [])"
    using b(4) by (simp add: s1_def)
  have Rle: "length R \<le> length (remaining s)" and Rsub: "set R \<subseteq> set (remaining s)"
    by (simp_all add: b(3))
  have cwR: "(cw \<in> set R) = (cw \<in> set (remaining s))" using b(2,3) by auto
  have g5: "length guess = 5" using b(1) less.prems(3) by simp
  show ?case
  proof (cases "guess = cw \<or> R = []")
    case True
    have run: "solve_loop ar cw s = Some (Inr s1)"
      by (subst solve_loop.simps) (simp add: body True)
    have a: "cw \<in> set (remaining s) \<longrightarrow> last [guess] = cw"
      using True cwR by auto
    have c: "cw \<notin> set (remaining s) \<longrightarrow> remaining s1 = [] \<and> cw \<notin> set [guess]"
      using True b(1) s1(1) by auto
    have main: "solve_loop ar cw s = Some (Inr s1) \<and>
      attempts s1 = attempts s @ [guess] \<and> printed s1 = printed s @ [l] \<and>
      [guess] \<noteq> [] \<and> map line_guess [l] = [guess] \<and> set [guess] \<subseteq> set (remaining s) \<and>
      length [guess] \<le> length (remaining s) \<and>
      sorted_wrt (\<lambda>a b. b \<le> a) (length (remaining s) # map line_remaining [l]) \<and>
      line_remaining (last [l]) = length (remaining s1) \<and>
      (cw \<in> set (remaining s) \<longrightarrow> last [guess] = cw) \<and>
      (cw \<notin> set (remaining s) \<longrightarrow> remaining s1 = [] \<and> cw \<notin> set [guess])"
      using run s1 l b(1) Rle a c less.prems(2) by (simp add: Suc_le_eq)
    show ?thesis
      by (rule exI [of _ s1], rule exI [of _ "[guess]"], rule exI [of _ "[l]"]) (rule main)
  next
    case False
    then have ne: "guess \<noteq> cw" "R \<noteq> []" by auto
    have run: "solve_loop ar cw s = solve_loop ar cw s1"
      by (subst solve_loop.simps) (simp add: body False)
    have "guess \<notin> set R"
      unfolding b(3) using g5 cw ne(1) b(2) by (rule wrong_guess_removed)
    then have lt: "length R < length (remaining s)"
      unfolding b(3) using b(1) by (simp add: length_filter_less)
    have qp: "quotients_positive ar (int (length (remaining s1)))"
      using less.prems(1) Rle s1(1) quotients_positive_mono [of ar "int (length (remaining s))"]
      by simp
    have all5: "\<forall>w\<in>set (remaining s1). length w = 5"
      using less.prems(3) Rsub s1(1) by auto
    from less.hyps [of s1] lt s1(1) qp ne(2) all5
    obtain s' new lines where r: "solve_loop ar cw s1 = Some (Inr s')"
      "attempts s' = attempts s1 @ new" "printed s' = printed s1 @ lines"
      "new \<noteq> []" "map line_guess lines = new" "set new \<subseteq> set (remaining s1)"
      "length new \<le> length (remaining s1)"
      "sorted_wrt (\<lambda>a b. b \<le> a) (length (remaining s1) # map line_remaining lines)"
      "line_remaining (last lines) = length (remaining s')"
      "cw \<in> set (remaining s1) \<longrightarrow> last new = cw"
      "cw \<notin> set (remaining s1) \<longrightarrow> remaining s' = [] \<and> cw \<notin> set new"
      by blast
    have lines_ne: "lines \<noteq> []" using r(4,5) by auto
    have srt: "sorted_wrt (\<lambda>a b. b \<le> a) (length (remaining s) # map line_remaining (l # lines))"
      using r(8) Rle s1(1) l(2) by auto
    have len: "length (guess # new) \<le> length (remaining s)"
      using r(7) lt s1(1) by simp
    have main: "solve_loop ar cw s = Some (Inr s') \<and>
      attempts s' = attempts s @ (guess # new) \<and> printed s' = printed s @ (l # lines) \<and>
      guess # new \<noteq> [] \<and> map line_guess (l # lines) = guess # new \<and>
      set (guess # new) \<subseteq> set (remaining s) \<and>
      length (guess # new) \<le> length (remaining s) \<and>
      sorted_wrt (\<lambda>a b. b \<le> a) (length (remaining s) # map line_remaining (l # lines)) \<and>
      line_remaining (last (l # lines)) = length (remaining s') \<and>
      (cw \<in> set (remaining s) \<longrightarrow> last (guess # new) = cw) \<and>
      (cw \<notin> set (remaining s) \<longrightarrow> remaining s' = [] \<and> cw \<notin> set (guess # new))"
      using run r(1,2,3,4,5,6,9,10,11) srt len s1 l(1) b(1) Rsub cwR ne(1) lines_ne by auto
    show ?thesis
      by (rule exI [of _ s'], rule exI [of _ "guess # new"], rule exI [of _ "l # lines"])
        (rule main)
  qed
qed

section \<open>Runs on concrete lists\<close>

text \<open>Turns and whole runs with exact real arithmetic, by evaluation.\<close>

lemmas solver_defs =
  loop_body_def select_initial_word_def select_best_entropy_word_def calculate_entropy_def
  feedback_def real_ops_def py_truediv_def py_log2_def counter_update_def replicate_five
  Let_def

lemma real_ops_quotients_positive: "quotients_positive real_ops n"
  by (simp add: quotients_positive_def real_ops_def)

lemma turn_one_word_solved:
  "loop_body real_ops ''ABCDE'' \<lparr>remaining = [''ABCDE''], attempts = [], printed = []\<rparr> =
     Inr (\<lparr>remaining = [''ABCDE''], attempts = [''ABCDE''],
           printed = [(1, ''ABCDE'', ''GGGGG'', 1)]\<rparr>, True)"
  by (simp add: solver_defs)

lemma turn_one_word_exhausted:
  "loop_body real_ops ''FGHIJ'' \<lparr>remaining = [''ABCDE''], attempts = [], printed = []\<rparr> =
     Inr (\<lparr>remaining = [], attempts = [''ABCDE''],
           printed = [(1, ''ABCDE'', ''BBBBB'', 0)]\<rparr>, True)"
  by (simp add: solver_defs)

lemma turn_two_words:
  "loop_body real_ops ''FGHIJ''
     \<lparr>remaining = [''ABCDE'', ''FGHIJ''], attempts = [], printed = []\<rparr> =
     Inr (\<lparr>remaining = [''FGHIJ''], attempts = [''ABCDE''],
           printed = [(1, ''ABCDE'', ''BBBBB'', 1)]\<rparr>, False)"
  by (simp add: solver_defs)

lemma turn_two_words_second:
  "loop_body real_ops ''FGHIJ''
     \<lparr>remaining = [''FGHIJ''], attempts = [''ABCDE''],
           printed = [(1, ''ABCDE'', ''BBBBB'', 1)]\<rparr> =
     Inr (\<lparr>remaining = [''FGHIJ''], attempts = [''ABCDE'', ''FGHIJ''],
           printed = [(1, ''ABCDE'', ''BBBBB'', 1), (2, ''FGHIJ'', ''GGGGG'', 1)]\<rparr>, True)"
  by (simp add: solver_defs)

lemma run_one_word_solved:
  "solve_wordle real_ops [''ABCDE''] ''ABCDE'' =
     Some (Inr ([''ABCDE''], [(1, ''ABCDE'', ''GGGGG'', 1)]))"
  unfolding solve_wordle_def
  by (subst solve_loop.simps, subst turn_one_word_solved) simp

lemma run_one_word_exhausted:
  "solve_wordle real_ops [''ABCDE''] ''FGHIJ'' =
     Some (Inr ([''ABCDE''], [(1, ''ABCDE'', ''BBBBB'', 0)]))"
  unfolding solve_wordle_def
  by (subst solve_loop.simps, subst turn_one_word_exhausted) simp

lemma run_two_words:
  "solve_wordle real_ops [''ABCDE'', ''FGHIJ''] ''FGHIJ'' =
     Some (Inr ([''ABCDE'', ''FGHIJ''],
                [(1, ''ABCDE'', ''BBBBB'', 1), (2, ''FGHIJ'', ''GGGGG'', 1)]))"
proof -
  have "solve_loop real_ops ''FGHIJ''
     \<lparr>remaining = [''FGHIJ''], attempts = [''ABCDE''],
           printed = [(1, ''ABCDE'', ''BBBBB'', 1)]\<rparr> =
     Some (Inr \<lparr>remaining = [''FGHIJ''], attempts = [''ABCDE'', ''FGHIJ''],
           printed = [(1, ''ABCDE'', ''BBBBB'', 1), (2, ''FGHIJ'', ''GGGGG'', 1)]\<rparr>)"
    by (subst solve_loop.simps, subst turn_two_words_second) simp
  then have "solve_loop real_ops ''FGHIJ''
     \<lparr>remaining = [''ABCDE'', ''FGHIJ''], attempts = [], printed = []\<rparr> =
     Some (Inr \<lparr>remaining = [''FGHIJ''], attempts = [''ABCDE'', ''FGHIJ''],
           printed = [(1, ''ABCDE'', ''BBBBB'', 1), (2, ''FGHIJ'', ''GGGGG'', 1)]\<rparr>)"
    by (subst solve_loop.simps, subst turn_two_words) simp
  then show ?thesis by (simp add: solve_wordle_def)
qed

lemma run_empty:
  "solve_wordle real_ops [] ''ABCDE'' = Some (Inl ValueError)"
  unfolding solve_wordle_def
  by (subst solve_loop.simps) (simp add: solver_defs)

lemma solve_wordle_ok:
  fixes ar :: "('f::linorder) float_ops"
  assumes "quotients_positive ar (int (length C))" "C \<noteq> []" "\<forall>w\<in>set C. length w = 5"
    "length a = 5"
  shows "\<exists>att out. solve_wordle ar C a = Some (Inr (att, out)) \<and> att \<noteq> [] \<and>
      map line_guess out = att \<and> set att \<subseteq> set C \<and> length att \<le> length C \<and>
      sorted_wrt (\<lambda>x y. y \<le> x) (length C # map line_remaining out) \<and>
      (a \<in> set C \<longrightarrow> last att = a) \<and>
      (a \<notin> set C \<longrightarrow> line_remaining (last out) = 0 \<and> a \<notin> set att)"
proof -
  let ?s = "\<lparr>remaining = C, attempts = [], printed = []\<rparr>"
  from solve_loop_ok [OF assms(4), of ar ?s] assms(1,2,3)
  obtain s' new lines where r: "solve_loop ar a ?s = Some (Inr s')"
      "attempts s' = new" "printed s' = lines"
      "new \<noteq> []" "map line_guess lines = new" "set new \<subseteq> set C"
      "length new \<le> length C"
      "sorted_wrt (\<lambda>a b. b \<le> a) (length C # map line_remaining lines)"
      "line_remaining (last lines) = length (remaining s')"
      "a \<in> set C \<longrightarrow> last new = a"
      "a \<notin> set C \<longrightarrow> remaining s' = [] \<and> a \<notin> set new"
    by auto
  have "solve_wordle ar C a = Some (Inr (new, lines))"
    using r(1,2,3) by (simp add: solve_wordle_def)
  moreover have "a \<notin> set C \<longrightarrow> line_remaining (last lines) = 0 \<and> a \<notin> set new"
    using r(9,11) by simp
  ultimately show ?thesis using r(4,5,6,7,8,10) by simp
qed

lemma loop_body_filter:
  fixes ar :: "('f::linorder) float_ops"
  assumes "loop_body ar a s = Inr (s', stop)"
  shows "\<exists>guess fb. feedback guess a = Inr fb \<and>
           filter_remaining guess fb (remaining s) = Inr (remaining s')"
proof -
  let ?sel = "if attempts s = [] then select_initial_word ar (remaining s)
              else select_best_entropy_word ar (remaining s)"
  from assms obtain guess where g: "?sel = Inr guess"
    unfolding loop_body_def by (cases ?sel) simp_all
  from assms g obtain fb where fb: "feedback guess a = Inr fb"
    unfolding loop_body_def by (cases "feedback guess a") (simp_all add: Let_def)
  from assms g fb obtain R where R: "filter_remaining guess fb (remaining s) = Inr R"
    unfolding loop_body_def
    by (cases "filter_remaining guess fb (remaining s)") (simp_all add: Let_def)
  from assms g fb R have "remaining s' = R"
    unfolding loop_body_def by (auto simp: Let_def)
  then show ?thesis using fb R by auto
qed

lemma loop_state_keeps_answer:
  fixes ar :: "('f::linorder) float_ops"
  assumes "loop_state ar C a st" "a \<in> set C"
  shows "a \<in> set (remaining (fst st))"
  using assms
proof (induction rule: loop_state.induct)
  case start
  then show ?case by simp
next
  case (turn s s' stop)
  then have a: "a \<in> set (remaining s)" by simp
  from loop_body_filter [OF turn.hyps(2)] obtain guess fb where
    "feedback guess a = Inr fb" "filter_remaining guess fb (remaining s) = Inr (remaining s')"
    by auto
  from filter_remaining_keeps [OF this a] show ?case by simp
qed

text \<open>The answer has to be a five-letter word for the loop to return. With the list
  \<open>[ABCDE]\<close> and the six-letter answer \<open>ABCDEF\<close> every turn guesses \<open>ABCDE\<close>, gets the
  feedback \<open>GGGGG\<close> and keeps the list as it is, while the guess is not the answer: the
  loop has no result.\<close>

lemma turn_long_answer:
  assumes "remaining s = [''ABCDE'']"
  shows "\<exists>s'. loop_body real_ops ''ABCDEF'' s = Inr (s', False) \<and> remaining s' = [''ABCDE'']"
  using assms by (cases "attempts s = []") (simp_all add: solver_defs)

lemma long_answer_no_result:
  assumes "solve_loop ar cw s = Some y"
  shows "ar = real_ops \<longrightarrow> cw = ''ABCDEF'' \<longrightarrow> remaining s = [''ABCDE''] \<longrightarrow> False"
proof (rule solve_loop.raw_induct
    [where P = "\<lambda>ar cw s y. ar = real_ops \<longrightarrow> cw = ''ABCDEF'' \<longrightarrow>
                  remaining s = [''ABCDE''] \<longrightarrow> False", OF _ assms], intro impI)
  fix f :: "real float_ops \<Rightarrow> string \<Rightarrow> solver_state \<Rightarrow> (py_error + solver_state) option"
    and ar :: "real float_ops" and cw s y
  assume ih: "\<And>ar cw s y. f ar cw s = Some y \<Longrightarrow>
      ar = real_ops \<longrightarrow> cw = ''ABCDEF'' \<longrightarrow> remaining s = [''ABCDE''] \<longrightarrow> False"
    and eq: "(case loop_body ar cw s of Inl e \<Rightarrow> Some (Inl e)
              | Inr (s', stop) \<Rightarrow> if stop then Some (Inr s') else f ar cw s') = Some y"
    and a: "ar = real_ops" and c: "cw = ''ABCDEF''" and r: "remaining s = [''ABCDE'']"
  from turn_long_answer [OF r]
  obtain s' where s': "loop_body real_ops ''ABCDEF'' s = Inr (s', False)"
    "remaining s' = [''ABCDE'']"
    by auto
  have "f ar cw s' = Some y" using eq s'(1) by (simp add: a c)
  from ih [OF this] a c s'(2) show False by simp
qed

lemma run_long_answer: "solve_wordle real_ops [''ABCDE''] ''ABCDEF'' = None"
proof -
  let ?s = "\<lparr>remaining = [''ABCDE''], attempts = [], printed = []\<rparr>"
  have "solve_loop real_ops ''ABCDEF'' ?s \<noteq> Some y" for y
    using long_answer_no_result [of real_ops "''ABCDEF''" ?s y] by auto
  then have "solve_loop real_ops ''ABCDEF'' ?s = None"
    by (cases "solve_loop real_ops ''ABCDEF'' ?s") auto
  then show ?thesis by (simp add: solve_wordle_def)
qed

section \<open>The entropy in exact arithmetic\<close>

text \<open>With \<open>real_ops\<close> the summing loop subtracts \<open>p * log 2 p\<close> for every count, and
  the counts are those of the patterns of the partition.\<close>

lemma sum_entropy_real:
  assumes "0 < n"
  shows "\<forall>c\<in>set cs. 0 < c \<Longrightarrow>
    sum_entropy real_ops n cs e =
      Inr (e - (\<Sum>c\<leftarrow>cs. (real_of_int c / real_of_int n) * log 2 (real_of_int c / real_of_int n)))"
proof (induction cs arbitrary: e)
  case Nil
  then show ?case by simp
next
  case (Cons c cs)
  then have c: "0 < c" by simp
  have d: "py_truediv real_ops c n = Inr (real_of_int c / real_of_int n)"
    using assms by (simp add: py_truediv_def real_ops_def)
  have "0 < real_of_int c / real_of_int n" using c assms by simp
  then have l: "py_log2 real_ops (real_of_int c / real_of_int n) =
      Inr (log 2 (real_of_int c / real_of_int n))"
    by (simp add: py_log2_def real_ops_def)
  have s: "f_sub real_ops x y = x - y" "f_mul real_ops x y = x * y" for x y
    by (simp_all add: real_ops_def)
  show ?case using Cons d l by (simp add: s algebra_simps)
qed

lemma patterns_pos: "(k \<in> patterns g C) = (0 < pattern_count g C k)"
proof -
  have "(filter (\<lambda>w. feedback g w = Inr k) C \<noteq> []) = (\<exists>w\<in>set C. feedback g w = Inr k)"
    by (simp add: filter_empty_conv)
  then show ?thesis by (auto simp: patterns_def pattern_count_def)
qed

lemma pattern_count_full:
  "(pattern_count g C k = int (length C)) = (\<forall>w\<in>set C. feedback g w = Inr k)"
proof -
  let ?P = "\<lambda>w. feedback g w = Inr k"
  have "length (filter ?P C) + length (filter (\<lambda>w. \<not> ?P w) C) = length C"
    by (simp add: sum_length_filter_compl)
  then have "(length (filter ?P C) = length C) = (filter (\<lambda>w. \<not> ?P w) C = [])"
    by auto
  also have "\<dots> = (\<forall>w\<in>set C. ?P w)" by (simp add: filter_empty_conv)
  finally show ?thesis by (simp add: pattern_count_def)
qed

lemma calculate_entropy_real:
  assumes "C \<noteq> []" "length g = 5" "\<forall>w\<in>set C. length w = 5"
  shows "finite (patterns g C) \<and>
    calculate_entropy real_ops g C =
      Inr (- (\<Sum>k\<in>patterns g C. pattern_prob g C k * log 2 (pattern_prob g C k)))"
proof -
  let ?n = "int (length C)"
  let ?t = "\<lambda>c. (real_of_int c / real_of_int ?n) * log 2 (real_of_int c / real_of_int ?n)"
  have n: "0 < ?n" using assms(1) by simp
  from count_patterns_entries [of g C] assms(2,3)
  obtain d where d: "count_patterns g C [] = Inr d" "distinct (map fst d)"
    "\<forall>k c. ((k, c) \<in> set d) = (c = pattern_count g C k \<and> 0 < c)"
    by auto
  have pos: "\<forall>c\<in>set (map snd d). 0 < c" using d(3) by auto
  have vals: "map snd d = map (pattern_count g C) (map fst d)"
    using d(3) by (auto simp: map_eq_conv)
  have keys: "set (map fst d) = patterns g C"
  proof -
    have "(k \<in> set (map fst d)) = (k \<in> patterns g C)" for k
    proof -
      have "(k \<in> set (map fst d)) = (\<exists>c. (k, c) \<in> set d)" by force
      then show ?thesis using d(3) by (simp add: patterns_pos)
    qed
    then show ?thesis by blast
  qed
  have "calculate_entropy real_ops g C = Inr (0 - (\<Sum>c\<leftarrow>map snd d. ?t c))"
    using sum_entropy_real [OF n pos, of 0] d(1)
    by (simp add: calculate_entropy_def real_ops_def)
  also have "(\<Sum>c\<leftarrow>map snd d. ?t c) = (\<Sum>k\<leftarrow>map fst d. ?t (pattern_count g C k))"
    by (simp add: vals comp_def)
  also have "\<dots> = (\<Sum>k\<in>set (map fst d). ?t (pattern_count g C k))"
    using d(2) by (rule sum_list_distinct_conv_sum_set)
  also have "\<dots> = (\<Sum>k\<in>patterns g C. ?t (pattern_count g C k))"
    by (simp only: keys)
  finally have "calculate_entropy real_ops g C =
      Inr (- (\<Sum>k\<in>patterns g C. pattern_prob g C k * log 2 (pattern_prob g C k)))"
    by (simp add: pattern_prob_def)
  moreover have "finite (patterns g C)" using keys by (metis List.finite_set)
  ultimately show ?thesis by simp
qed

lemma log2_zero_iff:
  fixes p :: real
  assumes "0 < p"
  shows "(log 2 p = 0) = (p = 1)"
proof -
  have "(log 2 p = 0) = (log 2 p \<le> 0 \<and> 0 \<le> log 2 p)" by auto
  also have "\<dots> = (p \<le> 1 \<and> 1 \<le> p)" using assms by simp
  also have "\<dots> = (p = 1)" by auto
  finally show ?thesis .
qed

lemma entropy_term:
  assumes "C \<noteq> []" "k \<in> patterns g C"
  shows "pattern_prob g C k * log 2 (pattern_prob g C k) \<le> 0"
    and "(pattern_prob g C k * log 2 (pattern_prob g C k) = 0) =
         (\<forall>w\<in>set C. feedback g w = Inr k)"
proof -
  let ?p = "pattern_prob g C k"
  have n: "0 < real_of_int (int (length C))" using assms(1) by simp
  have c: "0 < pattern_count g C k" using assms(2) by (simp add: patterns_pos)
  have le: "pattern_count g C k \<le> int (length C)" using pattern_count_bounds [of g C k] by simp
  have p0: "0 < ?p" using n c by (simp add: pattern_prob_def)
  have p1: "?p \<le> 1" using n le by (simp add: pattern_prob_def)
  have "log 2 ?p \<le> 0" using p0 p1 by simp
  then show "?p * log 2 ?p \<le> 0" using p0 by (simp add: mult_nonneg_nonpos)
  have "(?p * log 2 ?p = 0) = (log 2 ?p = 0)" using p0 by simp
  also have "\<dots> = (?p = 1)" using p0 by (rule log2_zero_iff)
  also have "\<dots> = (real_of_int (pattern_count g C k) = real_of_int (int (length C)))"
    using n by (auto simp: pattern_prob_def)
  also have "\<dots> = (pattern_count g C k = int (length C))"
    by (rule of_int_eq_iff)
  also have "\<dots> = (\<forall>w\<in>set C. feedback g w = Inr k)" by (rule pattern_count_full)
  finally show "(?p * log 2 ?p = 0) = (\<forall>w\<in>set C. feedback g w = Inr k)" .
qed

lemma entropy_two_words:
  "calculate_entropy real_ops ''ABCDE'' [''ABCDE'', ''FGHIJ''] = Inr 1"
proof -
  have "log 2 (1 / 2) = - 1" by (simp add: log_divide)
  then show ?thesis
    by (simp add: calculate_entropy_def feedback_def real_ops_def py_truediv_def py_log2_def
        replicate_five)
qed

section \<open>The sign of the entropy\<close>

text \<open>With the sign properties of \<open>entropy_signs\<close>, the summing loop over counts that are
  all below the total returns a positive sum; and when all words give one pattern there
  is one count, the total, and the sum is zero.\<close>

lemma sum_entropy_positive:
  fixes ar :: "('f::linorder) float_ops"
  assumes es: "entropy_signs ar n"
  shows "cs \<noteq> [] \<Longrightarrow> \<forall>c\<in>set cs. 0 < c \<and> c < n \<Longrightarrow> f_zero ar \<le> e \<Longrightarrow>
    \<exists>h. sum_entropy ar n cs e = Inr h \<and> f_zero ar < h"
proof (induction cs arbitrary: e)
  case Nil
  then show ?case by simp
next
  case (Cons c cs)
  then have c: "0 < c" "c < n" by auto
  define p where "p = f_truediv ar c n"
  define x where "x = f_mul ar p (f_log2 ar p)"
  from es c have s: "f_zero ar < p" "\<forall>e. f_zero ar \<le> e \<longrightarrow> f_zero ar < f_sub ar e x"
    unfolding entropy_signs_def p_def x_def by (auto simp: Let_def)
  have d: "py_truediv ar c n = Inr p" using c by (simp add: py_truediv_def p_def)
  have l: "py_log2 ar p = Inr (f_log2 ar p)" using s(1) by (simp add: py_log2_def)
  have unfold: "sum_entropy ar n (c # cs) e = sum_entropy ar n cs (f_sub ar e x)"
    using d l by (simp add: x_def)
  have pos: "f_zero ar < f_sub ar e x" using s(2) Cons.prems(3) by simp
  show ?case
  proof (cases "cs = []")
    case True
    then show ?thesis using unfold pos by simp
  next
    case False
    have "\<forall>c\<in>set cs. 0 < c \<and> c < n" using Cons.prems(2) by simp
    moreover have "f_zero ar \<le> f_sub ar e x" using pos by simp
    ultimately show ?thesis using Cons.IH [OF False] unfold by simp
  qed
qed

lemma sum_entropy_single:
  fixes ar :: "('f::linorder) float_ops"
  assumes "entropy_signs ar n" "0 < n"
  shows "sum_entropy ar n [n] (f_zero ar) = Inr (f_zero ar)"
proof -
  define p where "p = f_truediv ar n n"
  define x where "x = f_mul ar p (f_log2 ar p)"
  from assms have s: "f_zero ar < p" "f_sub ar (f_zero ar) x = f_zero ar"
    unfolding entropy_signs_def p_def x_def by (auto simp: Let_def)
  have d: "py_truediv ar n n = Inr p" using assms(2) by (simp add: py_truediv_def p_def)
  have l: "py_log2 ar p = Inr (f_log2 ar p)" using s(1) by (simp add: py_log2_def)
  show ?thesis using d l s(2) by (simp add: x_def)
qed

lemma one_pattern_iff:
  assumes "length g = 5" "\<forall>w\<in>set C. length w = 5"
  shows "(\<forall>k\<in>patterns g C. \<forall>w\<in>set C. feedback g w = Inr k) =
         (\<forall>w\<in>set C. \<forall>v\<in>set C. feedback g w = feedback g v)"
proof
  assume l: "\<forall>k\<in>patterns g C. \<forall>w\<in>set C. feedback g w = Inr k"
  show "\<forall>w\<in>set C. \<forall>v\<in>set C. feedback g w = feedback g v"
  proof (intro ballI)
    fix w v assume wv: "w \<in> set C" "v \<in> set C"
    from feedback_greens [of g w] assms wv(1) obtain k where k: "feedback g w = Inr k"
      by auto
    then have "k \<in> patterns g C" using wv(1) by (auto simp: patterns_def)
    with l wv have "feedback g w = Inr k" "feedback g v = Inr k" by blast+
    then show "feedback g w = feedback g v" by simp
  qed
next
  assume r: "\<forall>w\<in>set C. \<forall>v\<in>set C. feedback g w = feedback g v"
  show "\<forall>k\<in>patterns g C. \<forall>w\<in>set C. feedback g w = Inr k"
  proof (intro ballI)
    fix k w assume "k \<in> patterns g C" "w \<in> set C"
    then obtain u where "u \<in> set C" "feedback g u = Inr k" by (auto simp: patterns_def)
    with r \<open>w \<in> set C\<close> show "feedback g w = Inr k" by metis
  qed
qed

lemma calculate_entropy_signs:
  fixes ar :: "('f::linorder) float_ops"
  assumes "entropy_signs ar (int (length C))" "C \<noteq> []" "length g = 5"
    "\<forall>w\<in>set C. length w = 5"
  shows "\<exists>h. calculate_entropy ar g C = Inr h \<and> f_zero ar \<le> h \<and>
           (h = f_zero ar) = (\<forall>w\<in>set C. \<forall>v\<in>set C. feedback g w = feedback g v)"
proof -
  let ?n = "int (length C)"
  let ?same = "\<forall>w\<in>set C. \<forall>v\<in>set C. feedback g w = feedback g v"
  have n: "0 < ?n" using assms(2) by simp
  from count_patterns_entries [of g C] assms(3,4)
  obtain d where d: "count_patterns g C [] = Inr d" "distinct (map fst d)"
    "\<forall>k c. ((k, c) \<in> set d) = (c = pattern_count g C k \<and> 0 < c)"
    by auto
  have run: "calculate_entropy ar g C = sum_entropy ar ?n (map snd d) (f_zero ar)"
    using d(1) by (simp add: calculate_entropy_def)
  obtain w0 where w0: "w0 \<in> set C" using assms(2) by (cases C) auto
  from feedback_greens [of g w0] assms(3,4) w0 obtain k0 where k0: "feedback g w0 = Inr k0"
    by auto
  show ?thesis
  proof (cases ?same)
    case True
    have all: "\<forall>w\<in>set C. feedback g w = Inr k0"
    proof
      fix w assume "w \<in> set C"
      with True w0 have "feedback g w = feedback g w0" by blast
      then show "feedback g w = Inr k0" using k0 by simp
    qed
    have cnt: "pattern_count g C k0 = ?n" using all by (simp add: pattern_count_full)
    have mem: "((k, c) \<in> set d) = (k = k0 \<and> c = ?n)" for k c
    proof
      assume "(k, c) \<in> set d"
      then have c: "c = pattern_count g C k" "0 < pattern_count g C k" using d(3) by auto
      then have "k \<in> patterns g C" by (simp add: patterns_pos)
      then obtain u where "u \<in> set C" "feedback g u = Inr k" by (auto simp: patterns_def)
      with all have "k = k0" by auto
      then show "k = k0 \<and> c = ?n" using c(1) cnt by simp
    next
      assume "k = k0 \<and> c = ?n"
      then show "(k, c) \<in> set d" using d(3) cnt n by simp
    qed
    then have "set d = {(k0, ?n)}" by auto
    moreover have "distinct d" using d(2) by (rule distinct_map [THEN iffD1, THEN conjunct1])
    ultimately have "d = [(k0, ?n)]"
      by (metis distinct_card card_1_singleton_iff length_0_conv length_Suc_conv
          list.simps(15) empty_set list.set_intros(1) singletonD)
    then have "calculate_entropy ar g C = Inr (f_zero ar)"
      using run sum_entropy_single [OF assms(1) n] by simp
    then have "calculate_entropy ar g C = Inr (f_zero ar) \<and> f_zero ar \<le> f_zero ar \<and>
        (f_zero ar = f_zero ar) = ?same"
      using True by blast
    then show ?thesis by (rule exI)
  next
    case False
    have below: "\<forall>c\<in>set (map snd d). 0 < c \<and> c < ?n"
    proof
      fix c assume "c \<in> set (map snd d)"
      then obtain k where kc: "(k, c) \<in> set d" by auto
      then have c: "c = pattern_count g C k" "0 < c" using d(3) by auto
      have "pattern_count g C k \<noteq> ?n"
      proof
        assume e: "pattern_count g C k = ?n"
        then have "\<forall>w\<in>set C. feedback g w = Inr k" by (simp add: pattern_count_full)
        then have ?same by simp
        with False show False by blast
      qed
      then show "0 < c \<and> c < ?n" using c pattern_count_bounds [of g C k] by simp
    qed
    have "(k0, pattern_count g C k0) \<in> set d"
    proof -
      have "k0 \<in> patterns g C" using w0 k0 by (auto simp: patterns_def)
      then show ?thesis using d(3) by (simp add: patterns_pos)
    qed
    then have ne: "map snd d \<noteq> []" by auto
    from sum_entropy_positive [OF assms(1) ne below, of "f_zero ar"]
    obtain h where h: "sum_entropy ar ?n (map snd d) (f_zero ar) = Inr h" "f_zero ar < h"
      by auto
    have "calculate_entropy ar g C = Inr h" using run h(1) by simp
    moreover have "f_zero ar \<le> h" using h(2) by simp
    moreover have "(h = f_zero ar) = ?same"
    proof -
      have "h \<noteq> f_zero ar" using h(2) by simp
      show ?thesis
      proof
        assume "h = f_zero ar"
        with \<open>h \<noteq> f_zero ar\<close> show ?same by (rule notE)
      next
        assume ?same
        with False show "h = f_zero ar" by (rule notE)
      qed
    qed
    ultimately have "calculate_entropy ar g C = Inr h \<and> f_zero ar \<le> h \<and>
        (h = f_zero ar) = ?same"
      by (intro conjI)
    then show ?thesis by (rule exI)
  qed
qed

lemma real_ops_entropy_signs: "entropy_signs real_ops n"
proof -
  have "0 < real_of_int c / real_of_int t \<and>
        (c = t \<longrightarrow> 0 - real_of_int c / real_of_int t * log 2 (real_of_int c / real_of_int t) = 0) \<and>
        (c < t \<longrightarrow> (\<forall>e. 0 \<le> e \<longrightarrow>
           0 < e - real_of_int c / real_of_int t * log 2 (real_of_int c / real_of_int t)))"
    if "0 < c" "c \<le> t" for c t :: int
  proof -
    let ?p = "real_of_int c / real_of_int t"
    have p0: "0 < ?p" using that by simp
    have "?p < 1" if "c < t" using that \<open>0 < c\<close> by simp
    then have "c < t \<longrightarrow> log 2 ?p < 0" using p0 by simp
    then have neg: "c < t \<longrightarrow> ?p * log 2 ?p < 0"
      using p0 mult_pos_neg [of ?p "log 2 ?p"] by blast
    have "0 < e - ?p * log 2 ?p" if "c < t" "0 \<le> e" for e :: real
      using neg that by linarith
    moreover have "c = t \<longrightarrow> 0 - ?p * log 2 ?p = 0" using that by simp
    ultimately show ?thesis using p0 by blast
  qed
  then show ?thesis
    unfolding entropy_signs_def real_ops_def Let_def by simp
qed

section \<open>The signs of rounded values\<close>

text \<open>Rounding to a double keeps a value on its side of a power of two and of an integer
  multiple of the spacing; this is all the sign of the entropy needs of the rounding.\<close>

lemma pow2_powi: "pow2 k = 2 powi k"
  by (simp add: pow2_def power_int_def power_one_over inverse_eq_divide)

lemma pow2_pos: "0 < pow2 k"
  by (simp add: pow2_powi)

lemma pow2_add: "pow2 (a + b) = pow2 a * pow2 b"
  by (simp add: pow2_powi power_int_add)

lemma pow2_mono: "a \<le> b \<Longrightarrow> pow2 a \<le> pow2 b"
  by (simp add: pow2_powi power_int_increasing)

lemma pow2_int: "0 \<le> k \<Longrightarrow> pow2 k = of_int (2 ^ nat k)"
  by (simp add: pow2_def)

lemma pow2_diff: "pow2 a / pow2 b = pow2 (a - b)"
proof -
  have "pow2 a = pow2 (a - b) * pow2 b" using pow2_add [of "a - b" b] by simp
  then show ?thesis using pow2_pos [of b] by simp
qed

lemma ilog2_lower:
  assumes "0 < x"
  shows "pow2 (ilog2 x) \<le> x"
proof -
  obtain a b where ab: "quotient_of x = (a, b)" by (cases "quotient_of x")
  then have b: "0 < b" by (rule quotient_of_denom_pos)
  have x: "x = of_int a / of_int b" using ab by (rule quotient_of_div)
  have a: "0 < a" using assms b x by (simp add: zero_less_divide_iff)
  let ?k = "bitlen a - bitlen b"
  show ?thesis
  proof (cases "pow2 ?k \<le> x")
    case True
    then show ?thesis using ab by (simp add: ilog2_def)
  next
    case False
    have la: "1 \<le> bitlen a" using a bitlen_eq_zero_iff [of a] bitlen_nonneg [of a] by simp
    have lb: "0 \<le> bitlen b" by (rule bitlen_nonneg)
    have "(2::int) ^ nat (bitlen a - 1) \<le> a" using bitlen_bounds [OF a] by simp
    then have "(of_int (2 ^ nat (bitlen a - 1))::rat) \<le> of_int a" by (simp only: of_int_le_iff)
    then have n: "pow2 (bitlen a - 1) \<le> of_int a" using la by (simp add: pow2_int)
    have "b < 2 ^ nat (bitlen b)" using bitlen_bounds [OF b] by simp
    then have "(of_int b::rat) < of_int (2 ^ nat (bitlen b))" by (simp only: of_int_less_iff)
    then have d: "of_int b < pow2 (bitlen b)" using lb by (simp add: pow2_int)
    have "pow2 (?k - 1) = pow2 (bitlen a - 1) / pow2 (bitlen b)"
      by (simp add: pow2_diff algebra_simps)
    also have "\<dots> \<le> of_int a / pow2 (bitlen b)"
      using n pow2_pos [of "bitlen b"] by (simp add: divide_right_mono)
    also have "\<dots> \<le> of_int a / of_int b"
      using d a b by (simp add: divide_left_mono)
    finally have "pow2 (?k - 1) \<le> x" using x by simp
    then show ?thesis using ab False by (simp add: ilog2_def)
  qed
qed

lemma ilog2_below_one:
  assumes "0 < x" "x < 1"
  shows "ilog2 x \<le> - 1"
proof (rule ccontr)
  assume "\<not> ilog2 x \<le> - 1"
  then have "pow2 0 \<le> pow2 (ilog2 x)" by (simp add: pow2_mono)
  then have "1 \<le> x" using ilog2_lower [OF assms(1)] by (simp add: pow2_def)
  with assms(2) show False by simp
qed

lemma round_even_ge: "of_int m \<le> y \<Longrightarrow> m \<le> round_even y"
proof -
  assume "of_int m \<le> y"
  then have "m \<le> \<lfloor>y\<rfloor>" by (simp add: le_floor_iff)
  moreover have "\<lfloor>y\<rfloor> \<le> round_even y" by (simp add: round_even_def Let_def)
  ultimately show ?thesis by simp
qed

lemma round_even_le: "y \<le> of_int m \<Longrightarrow> round_even y \<le> m"
proof -
  assume le: "y \<le> of_int m"
  show ?thesis
  proof (cases "y = of_int \<lfloor>y\<rfloor>")
    case True
    then have "y - of_int \<lfloor>y\<rfloor> = 0" by simp
    then have "round_even y = \<lfloor>y\<rfloor>" by (simp add: round_even_def Let_def)
    moreover have "\<lfloor>y\<rfloor> \<le> m" using le by (simp add: floor_le_iff)
    ultimately show ?thesis by simp
  next
    case False
    moreover have "of_int \<lfloor>y\<rfloor> \<le> y" by (rule of_int_floor_le)
    ultimately have "of_int \<lfloor>y\<rfloor> < y" by (metis order.not_eq_order_implies_strict)
    with le have "(of_int \<lfloor>y\<rfloor>::rat) < of_int m" by simp
    then have "\<lfloor>y\<rfloor> < m" by (simp only: of_int_less_iff)
    moreover have "round_even y \<le> \<lfloor>y\<rfloor> + 1" by (simp add: round_even_def Let_def)
    ultimately show ?thesis by simp
  qed
qed

lemma round_double_positive:
  assumes "0 < x"
  shows "round_double x =
    of_int (round_even (x / pow2 (max (ilog2 x) (- 1022) - 52))) *
      pow2 (max (ilog2 x) (- 1022) - 52)"
  using assms by (simp add: round_double_def Let_def)

lemma round_double_minus: "round_double (- x) = - round_double x"
  by (simp add: round_double_def Let_def sgn_minus)

lemma round_double_ge:
  assumes "pow2 k \<le> x" "- 1074 \<le> k"
  shows "pow2 k \<le> round_double x"
proof -
  have x: "0 < x" using assms(1) pow2_pos [of k] by simp
  define q where "q = max (ilog2 x) (- 1022) - 52"
  have "\<exists>j. pow2 k \<le> pow2 j \<and> pow2 j \<le> x \<and> q \<le> j"
  proof (cases "q \<le> k")
    case True
    then show ?thesis using assms(1) by auto
  next
    case False
    then have e: "q = ilog2 x - 52" "k \<le> ilog2 x" using assms(2) by (auto simp: q_def)
    have "pow2 k \<le> pow2 (ilog2 x)" using e(2) by (rule pow2_mono)
    moreover have "pow2 (ilog2 x) \<le> x" using x by (rule ilog2_lower)
    moreover have "q \<le> ilog2 x" using e(1) by simp
    ultimately show ?thesis by blast
  qed
  then obtain j where j: "pow2 k \<le> pow2 j" "pow2 j \<le> x" "q \<le> j" by blast
  have m: "pow2 (j - q) = of_int (2 ^ nat (j - q))" using j(3) by (simp add: pow2_int)
  have "pow2 j / pow2 q \<le> x / pow2 q" using j(2) pow2_pos [of q] by (simp add: divide_right_mono)
  then have "of_int (2 ^ nat (j - q)) \<le> x / pow2 q" using m by (simp add: pow2_diff)
  then have "2 ^ nat (j - q) \<le> round_even (x / pow2 q)" by (rule round_even_ge)
  then have "(of_int (2 ^ nat (j - q))::rat) \<le> of_int (round_even (x / pow2 q))"
    by (simp only: of_int_le_iff)
  then have "pow2 (j - q) * pow2 q \<le> of_int (round_even (x / pow2 q)) * pow2 q"
    using m pow2_pos [of q] by (simp add: mult_right_mono)
  moreover have "pow2 (j - q) * pow2 q = pow2 j" using pow2_add [of "j - q" q] by simp
  moreover have "round_double x = of_int (round_even (x / pow2 q)) * pow2 q"
    using round_double_positive [OF x] by (simp add: q_def)
  ultimately show ?thesis using j(1) by simp
qed

lemma round_double_le:
  assumes "0 < x" "x \<le> of_int m * pow2 j" "ilog2 x \<le> j + 52" "- 1074 \<le> j"
  shows "round_double x \<le> of_int m * pow2 j"
proof -
  define q where "q = max (ilog2 x) (- 1022) - 52"
  have q: "q \<le> j" using assms(3,4) by (simp add: q_def)
  have p: "pow2 (j - q) = of_int (2 ^ nat (j - q))" using q by (simp add: pow2_int)
  have "x / pow2 q \<le> of_int m * pow2 j / pow2 q"
    using assms(2) pow2_pos [of q] by (simp add: divide_right_mono)
  also have "\<dots> = of_int m * pow2 (j - q)"
    by (simp only: times_divide_eq_right [symmetric] pow2_diff)
  also have "\<dots> = of_int (m * 2 ^ nat (j - q))" using p by simp
  finally have "round_even (x / pow2 q) \<le> m * 2 ^ nat (j - q)" by (rule round_even_le)
  then have "(of_int (round_even (x / pow2 q))::rat) \<le> of_int (m * 2 ^ nat (j - q))"
    by (simp only: of_int_le_iff)
  then have "of_int (round_even (x / pow2 q)) * pow2 q \<le> of_int (m * 2 ^ nat (j - q)) * pow2 q"
    using pow2_pos [of q] by (simp add: mult_right_mono)
  moreover have "(of_int (m * 2 ^ nat (j - q))::rat) * pow2 q = of_int m * pow2 j"
  proof -
    have "pow2 (j - q) * pow2 q = pow2 j" using pow2_add [of "j - q" q] by simp
    then have "of_int m * (pow2 (j - q) * pow2 q) = of_int m * pow2 j" by simp
    then show ?thesis using p by (simp add: mult.assoc)
  qed
  moreover have "round_double x = of_int (round_even (x / pow2 q)) * pow2 q"
    using round_double_positive [OF assms(1)] by (simp add: q_def)
  ultimately show ?thesis by (simp only:)
qed

lemma round_double_below_one:
  assumes "0 < x" "x \<le> 1 - pow2 (- 53)"
  shows "round_double x \<le> 1 - pow2 (- 53)"
proof -
  have v: "of_int (2 ^ 53 - 1) * pow2 (- 53) = 1 - pow2 (- 53)" by (simp add: pow2_def)
  have "x < 1" using assms(2) pow2_pos [of "- 53"] by simp
  then have "ilog2 x \<le> - 53 + 52" using ilog2_below_one [OF assms(1)] by simp
  from round_double_le [OF assms(1) _ this, of "2 ^ 53 - 1"] assms(2) v
  show ?thesis by simp
qed

lemma round_double_one: "round_double 1 = 1"
  by code_simp

lemma round_double_zero: "round_double 0 = 0"
  by (simp add: round_double_def)

lemma log2_real_signs:
  assumes "0 < x" "x \<le> 1 - pow2 (- 53)"
  shows "log 2 1 = (0::real) \<and> log 2 (real_of_rat x) \<le> - real_of_rat (pow2 (- 53))"
proof -
  let ?x = "real_of_rat x"
  let ?u = "real_of_rat (pow2 (- 53))"
  have x: "0 < ?x" using assms(1) by simp
  have u: "0 < ?u" using pow2_pos [of "- 53"] by simp
  have "?x \<le> real_of_rat (1 - pow2 (- 53))" using assms(2) by (simp only: of_rat_less_eq)
  then have le: "?x \<le> 1 - ?u" by (simp add: of_rat_diff)
  have "ln ?x \<le> ?x - 1" using x by (rule ln_le_minus_one)
  with le have l: "ln ?x \<le> - ?u" by simp
  have l2: "0 < ln (2::real)" "ln (2::real) \<le> 1"
    using ln_le_minus_one [of "2::real"] by simp_all
  have "ln ?x / ln 2 \<le> (- ?u) / ln 2" using l by (rule divide_right_mono) simp
  also have "\<dots> \<le> - ?u"
  proof -
    have "?u * ln 2 \<le> ?u * 1" using l2(2) u by (simp only: mult_left_mono less_imp_le)
    then have "?u \<le> ?u / ln 2" using l2(1) by (simp add: pos_le_divide_eq)
    then show ?thesis by simp
  qed
  finally have "log 2 ?x \<le> - ?u" by (simp add: log_def)
  then show ?thesis by simp
qed

lemma floor_log2_signs: "log2_signs (\<lambda>x. of_int (ilog2 x))"
proof -
  have "ilog2 1 = 0" by code_simp
  moreover have "of_int (ilog2 x) \<le> - pow2 (- 53)" if "0 < x" "x \<le> 1 - pow2 (- 53)" for x
  proof -
    have "x < 1" using that(2) pow2_pos [of "- 53"] by simp
    then have "ilog2 x \<le> - 1" using that(1) by (rule ilog2_below_one [rotated])
    then have "(of_int (ilog2 x)::rat) \<le> of_int (- 1)" by (simp only: of_int_le_iff)
    moreover have "pow2 (- 53) \<le> 1" by (simp add: pow2_def)
    ultimately show ?thesis by simp
  qed
  ultimately show ?thesis by (simp add: log2_signs_def)
qed

lemma double_ops_entropy_signs:
  assumes lg: "log2_signs lg" and n: "n \<le> 2 ^ 53"
  shows "entropy_signs (double_ops lg) n"
proof -
  have one: "lg 1 = 0"
    and neg: "\<forall>x. 0 < x \<and> x \<le> 1 - pow2 (- 53) \<longrightarrow> lg x \<le> - pow2 (- 53)"
    using lg by (simp_all add: log2_signs_def)
  have main: "0 < round_double (of_int c / of_int t) \<and>
      (c = t \<longrightarrow> round_double (0 - round_double (round_double (of_int c / of_int t) *
          lg (round_double (of_int c / of_int t)))) = 0) \<and>
      (c < t \<longrightarrow> (\<forall>e. 0 \<le> e \<longrightarrow> 0 < round_double (e - round_double
          (round_double (of_int c / of_int t) * lg (round_double (of_int c / of_int t))))))"
    if ct: "0 < c" "c \<le> t" "t \<le> n" for c t
  proof -
    define r :: rat where "r = of_int c / of_int t"
    define p where "p = round_double r"
    define x where "x = round_double (p * lg p)"
    have t: "0 < t" "t \<le> 2 ^ 53" using ct n by simp_all
    have tr: "(0::rat) < of_int t" "(of_int t::rat) \<le> 2 ^ 53"
    proof -
      show "(0::rat) < of_int t" using t(1) by simp
      have "(of_int t::rat) \<le> of_int (2 ^ 53)" using t(2) by (simp only: of_int_le_iff)
      then show "(of_int t::rat) \<le> 2 ^ 53" by simp
    qed
    have cr: "(1::rat) \<le> of_int c" using ct(1) by simp
    have h: "pow2 (- 53) = 1 / 2 ^ 53" by (simp add: pow2_def)
    have inv: "pow2 (- 53) \<le> 1 / of_int t"
      using tr by (simp add: h frac_le)
    have "1 / of_int t \<le> r" using cr tr(1) by (simp add: r_def divide_right_mono)
    with inv have r53: "pow2 (- 53) \<le> r" by simp
    then have p53: "pow2 (- 53) \<le> p" unfolding p_def by (rule round_double_ge) simp
    then have ppos: "0 < p" using pow2_pos [of "- 53"] by simp
    have rpos: "0 < r" using r53 pow2_pos [of "- 53"] by simp
    have eq: "round_double (0 - x) = 0" if "c = t"
    proof -
      have "r = 1" using that tr(1) by (simp add: r_def)
      then have "p = 1" by (simp add: p_def round_double_one)
      then have "x = 0" using one by (simp add: x_def round_double_zero)
      then show ?thesis by (simp add: round_double_zero)
    qed
    have lt: "0 < round_double (e - x)" if "c < t" "0 \<le> e" for e
    proof -
      have "c \<le> t - 1" using that(1) by simp
      then have "(of_int c::rat) \<le> of_int (t - 1)" by (simp only: of_int_le_iff)
      then have "r \<le> of_int (t - 1) / of_int t" using tr(1) by (simp add: r_def divide_right_mono)
      also have "\<dots> = 1 - 1 / of_int t" using tr(1) by (simp add: field_simps)
      also have "\<dots> \<le> 1 - pow2 (- 53)" using inv by simp
      finally have "r \<le> 1 - pow2 (- 53)" .
      with rpos have "p \<le> 1 - pow2 (- 53)" unfolding p_def by (rule round_double_below_one)
      with ppos neg have l: "lg p \<le> - pow2 (- 53)" by simp
      have "p * lg p \<le> p * (- pow2 (- 53))" using l ppos by (simp only: mult_left_mono less_imp_le)
      also have "\<dots> \<le> pow2 (- 53) * (- pow2 (- 53))"
        using p53 pow2_pos [of "- 53"] by (simp add: mult_right_mono)
      also have "\<dots> = - pow2 (- 106)" using pow2_add [of "- 53" "- 53"] by simp
      finally have "pow2 (- 106) \<le> - (p * lg p)" by simp
      then have "pow2 (- 106) \<le> round_double (- (p * lg p))" by (rule round_double_ge) simp
      then have "pow2 (- 106) \<le> - x" by (simp add: x_def round_double_minus)
      with that(2) have "pow2 (- 106) \<le> e - x" by simp
      then have "pow2 (- 106) \<le> round_double (e - x)" by (rule round_double_ge) simp
      then show ?thesis using pow2_pos [of "- 106"] by simp
    qed
    show ?thesis using ppos eq lt unfolding p_def x_def r_def by blast
  qed
  show ?thesis
    unfolding entropy_signs_def Let_def
    using main by (simp add: double_ops_def round_double_one round_double_zero one)
qed

lemma round_double_half: "round_double (1 / 2) = 1 / 2"
  by code_simp

lemma ilog2_half: "ilog2 (1 / 2) = - 1"
  by code_simp

lemma double_entropy_two_words:
  "calculate_entropy (double_ops (\<lambda>x. of_int (ilog2 x))) ''ABCDE'' [''ABCDE'', ''FGHIJ''] = Inr 1"
proof -
  have "round_double (- (1 / 2)) = - (1 / 2)"
    by (simp only: round_double_minus round_double_half)
  then show ?thesis
    by (simp add: calculate_entropy_def feedback_def replicate_five py_truediv_def py_log2_def
        double_ops_def round_double_half ilog2_half round_double_one)
qed

section \<open>A rounded entropy is not the exact one\<close>

text \<open>The binary logarithm of 3 is irrational: a power of 2 is not a power of 3.\<close>

lemma log2_3_irrational: "log 2 3 \<noteq> real_of_rat q"
proof
  assume eq: "log 2 3 = real_of_rat q"
  obtain a b where ab: "quotient_of q = (a, b)" by (cases "quotient_of q")
  then have b: "0 < b" and q: "q = of_int a / of_int b"
    by (simp_all add: quotient_of_denom_pos quotient_of_div)
  have qr: "real_of_rat q = real_of_int a / real_of_int b"
    by (simp add: q of_rat_divide)
  have "0 < log 2 3" by simp
  then have a: "0 < a" using eq qr b by (simp add: zero_less_divide_iff)
  have "(2::real) powr (log 2 3) = 3" by simp
  then have "(2::real) powr (real_of_int a / real_of_int b) = 3" using eq qr by simp
  then have "((2::real) powr (real_of_int a / real_of_int b)) powr real_of_int b = 3 powr real_of_int b"
    by simp
  then have "(2::real) powr real_of_int a = 3 powr real_of_int b"
    using b by (simp add: powr_powr)
  then have "(2::real) ^ nat a = 3 ^ nat b"
    using a b by (simp add: powr_realpow [symmetric])
  then have "real ((2::nat) ^ nat a) = real (3 ^ nat b)" by simp
  then have e: "(2::nat) ^ nat a = 3 ^ nat b" by (simp only: of_nat_eq_iff)
  have "even ((2::nat) ^ nat a)" using a by simp
  moreover have "odd ((3::nat) ^ nat b)" by simp
  ultimately show False using e by simp
qed


lemma round_double_third: "round_double (1 / 3) = 6004799503160661 / 18014398509481984"
  by code_simp

lemma round_double_two_thirds: "round_double (2 / 3) = 6004799503160661 / 9007199254740992"
  by code_simp

lemma double_entropy_returns:
  "\<exists>h. calculate_entropy (double_ops lg) ''ABCDE'' [''ABCDE'', ''FGHIJ'', ''FGHIK''] = Inr h"
  by (simp add: calculate_entropy_def feedback_def replicate_five py_truediv_def py_log2_def
      double_ops_def round_double_third round_double_two_thirds)

lemma exact_entropy_three_words:
  "- (\<Sum>k\<in>patterns ''ABCDE'' [''ABCDE'', ''FGHIJ'', ''FGHIK''].
        pattern_prob ''ABCDE'' [''ABCDE'', ''FGHIJ'', ''FGHIK''] k *
        log 2 (pattern_prob ''ABCDE'' [''ABCDE'', ''FGHIJ'', ''FGHIK''] k)) =
   log 2 3 - 2 / 3"
proof -
  let ?C = "[''ABCDE'', ''FGHIJ'', ''FGHIK'']"
  have l1: "log 2 (1 / 3) = - log 2 3" by (simp add: log_divide)
  have l2: "log 2 (2 / 3) = 1 - log 2 3" by (simp add: log_divide)
  have "log 2 3 / 3 - (2 - 2 * log 2 3) / 3 = log 2 3 - 2 / 3"
    by (simp add: field_simps)
  then have v: "calculate_entropy real_ops ''ABCDE'' ?C = Inr (log 2 3 - 2 / 3)"
    by (simp add: calculate_entropy_def feedback_def replicate_five py_truediv_def py_log2_def
        real_ops_def l1 l2)
  have "calculate_entropy real_ops ''ABCDE'' ?C =
      Inr (- (\<Sum>k\<in>patterns ''ABCDE'' ?C.
        pattern_prob ''ABCDE'' ?C k * log 2 (pattern_prob ''ABCDE'' ?C k)))"
    using calculate_entropy_real [of ?C "''ABCDE''"] by simp
  with v show ?thesis by simp
qed

section \<open>Scores in doubles\<close>

text \<open>On the list PETAL, PLATE, REACT the first two words have the same exact score, but
  their sums are rounded differently. Every rounding is evaluated on its own.\<close>

lemma rd_step_0: "round_double (2 / 3) = 6004799503160661 / 9007199254740992"
  by code_simp

lemma rd_step_1: "round_double (0 + 6004799503160661 / 9007199254740992) = 6004799503160661 / 9007199254740992"
  by code_simp

lemma rd_step_2: "round_double (0 / 3) = 0"
  by code_simp

lemma rd_step_3: "round_double (1 / 2 * 0) = 0"
  by code_simp

lemma rd_step_4: "round_double (6004799503160661 / 9007199254740992 + 0) = 6004799503160661 / 9007199254740992"
  by code_simp

lemma rd_step_5: "round_double (6004799503160661 / 9007199254740992 + 6004799503160661 / 9007199254740992) = 6004799503160661 / 4503599627370496"
  by code_simp

lemma rd_step_6: "round_double (1 / 3) = 6004799503160661 / 18014398509481984"
  by code_simp

lemma rd_step_7: "round_double (1 / 2 * (6004799503160661 / 18014398509481984)) = 6004799503160661 / 36028797018963968"
  by code_simp

lemma rd_step_8: "round_double (6004799503160661 / 4503599627370496 + 6004799503160661 / 36028797018963968) = 3 / 2"
  by code_simp

lemma rd_step_9: "round_double (3 / 2 + 6004799503160661 / 18014398509481984) = 8256599316845909 / 4503599627370496"
  by code_simp

lemma rd_step_10: "round_double (1 / 2 * (6004799503160661 / 9007199254740992)) = 6004799503160661 / 18014398509481984"
  by code_simp

lemma rd_step_11: "round_double (8256599316845909 / 4503599627370496 + 6004799503160661 / 18014398509481984) = 4878899596318037 / 2251799813685248"
  by code_simp

lemma rd_step_12: "round_double (4878899596318037 / 2251799813685248 + 6004799503160661 / 18014398509481984) = 5 / 2"
  by code_simp

lemma rd_step_13: "round_double (5 / 2 + 6004799503160661 / 18014398509481984) = 6380099472108203 / 2251799813685248"
  by code_simp

lemma rd_step_14: "round_double (6380099472108203 / 2251799813685248 + 6004799503160661 / 18014398509481984) = 3565349705001643 / 1125899906842624"
  by code_simp

lemma rd_step_15: "round_double (3565349705001643 / 1125899906842624 + 6004799503160661 / 36028797018963968) = 7505999378950827 / 2251799813685248"
  by code_simp

lemma rd_step_16: "round_double (6004799503160661 / 9007199254740992 + 6004799503160661 / 18014398509481984) = 1"
  by code_simp

lemma rd_step_17: "round_double (1 + 6004799503160661 / 36028797018963968) = 5254199565265579 / 4503599627370496"
  by code_simp

lemma rd_step_18: "round_double (5254199565265579 / 4503599627370496 + 6004799503160661 / 9007199254740992) = 4128299658422955 / 2251799813685248"
  by code_simp

lemma rd_step_19: "round_double (4128299658422955 / 2251799813685248 + 6004799503160661 / 36028797018963968) = 2"
  by code_simp

lemma rd_step_20: "round_double (2 + 6004799503160661 / 18014398509481984) = 5254199565265579 / 2251799813685248"
  by code_simp

lemma rd_step_21: "round_double (5254199565265579 / 2251799813685248 + 6004799503160661 / 18014398509481984) = 3002399751580331 / 1125899906842624"
  by code_simp

lemma rd_step_22: "round_double (3002399751580331 / 1125899906842624 + 6004799503160661 / 18014398509481984) = 6755399441055745 / 2251799813685248"
  by code_simp

lemma rd_step_23: "round_double (6755399441055745 / 2251799813685248 + 6004799503160661 / 18014398509481984) = 1876499844737707 / 562949953421312"
  by code_simp

lemma rd_step_24: "round_double (0 + 6004799503160661 / 18014398509481984) = 6004799503160661 / 18014398509481984"
  by code_simp

lemma rd_step_25: "round_double (6004799503160661 / 18014398509481984 + 0) = 6004799503160661 / 18014398509481984"
  by code_simp

lemma rd_step_26: "round_double (6004799503160661 / 18014398509481984 + 6004799503160661 / 9007199254740992) = 1"
  by code_simp

lemma rd_step_27: "round_double (5254199565265579 / 2251799813685248 + 0) = 5254199565265579 / 2251799813685248"
  by code_simp

lemmas rd_steps =
  rd_step_0 rd_step_1 rd_step_2 rd_step_3 rd_step_4 rd_step_5 rd_step_6 rd_step_7
  rd_step_8 rd_step_9 rd_step_10 rd_step_11 rd_step_12 rd_step_13 rd_step_14 rd_step_15
  rd_step_16 rd_step_17 rd_step_18 rd_step_19 rd_step_20 rd_step_21 rd_step_22 rd_step_23
  rd_step_24 rd_step_25 rd_step_26 rd_step_27

lemma double_score_petal:
  "computed_score (double_ops lg) [''PETAL'', ''PLATE'', ''REACT''] ''PETAL'' =
     7505999378950827 / 2251799813685248"
proof -
  have "computed_score (double_ops lg) [''PETAL'', ''PLATE'', ''REACT''] ''PETAL'' =
    round_double (round_double (round_double (round_double (round_double (round_double (round_double (round_double (round_double (round_double (0 + round_double (2 / 3)) + round_double (1 / 2 * round_double (0 / 3))) + round_double (2 / 3)) + round_double (1 / 2 * round_double (1 / 3))) + round_double (1 / 3)) + round_double (1 / 2 * round_double (2 / 3))) + round_double (1 / 3)) + round_double (1 / 2 * round_double (2 / 3))) + round_double (1 / 3)) + round_double (1 / 2 * round_double (1 / 3)))"
    by (simp add: computed_score_def computed_score_step_def double_ops_def position_count_def
        containing_count_def Let_def upt_rec numeral_eq_Suc)
  also have "\<dots> = 7505999378950827 / 2251799813685248"
    by (simp only: rd_steps)
  finally show ?thesis .
qed

lemma double_score_plate:
  "computed_score (double_ops lg) [''PETAL'', ''PLATE'', ''REACT''] ''PLATE'' =
     1876499844737707 / 562949953421312"
proof -
  have "computed_score (double_ops lg) [''PETAL'', ''PLATE'', ''REACT''] ''PLATE'' =
    round_double (round_double (round_double (round_double (round_double (round_double (round_double (round_double (round_double (round_double (0 + round_double (2 / 3)) + round_double (1 / 2 * round_double (0 / 3))) + round_double (1 / 3)) + round_double (1 / 2 * round_double (1 / 3))) + round_double (2 / 3)) + round_double (1 / 2 * round_double (1 / 3))) + round_double (1 / 3)) + round_double (1 / 2 * round_double (2 / 3))) + round_double (1 / 3)) + round_double (1 / 2 * round_double (2 / 3)))"
    by (simp add: computed_score_def computed_score_step_def double_ops_def position_count_def
        containing_count_def Let_def upt_rec numeral_eq_Suc)
  also have "\<dots> = 1876499844737707 / 562949953421312"
    by (simp only: rd_steps)
  finally show ?thesis .
qed

lemma double_score_react:
  "computed_score (double_ops lg) [''PETAL'', ''PLATE'', ''REACT''] ''REACT'' =
     6755399441055745 / 2251799813685248"
proof -
  have "computed_score (double_ops lg) [''PETAL'', ''PLATE'', ''REACT''] ''REACT'' =
    round_double (round_double (round_double (round_double (round_double (round_double (round_double (round_double (round_double (round_double (0 + round_double (1 / 3)) + round_double (1 / 2 * round_double (0 / 3))) + round_double (2 / 3)) + round_double (1 / 2 * round_double (1 / 3))) + round_double (2 / 3)) + round_double (1 / 2 * round_double (1 / 3))) + round_double (1 / 3)) + round_double (1 / 2 * round_double (0 / 3))) + round_double (1 / 3)) + round_double (1 / 2 * round_double (2 / 3)))"
    by (simp add: computed_score_def computed_score_step_def double_ops_def position_count_def
        containing_count_def Let_def upt_rec numeral_eq_Suc)
  also have "\<dots> = 6755399441055745 / 2251799813685248"
    by (simp only: rd_steps)
  finally show ?thesis .
qed


lemma exact_scores:
  "spec_score [''PETAL'', ''PLATE'', ''REACT''] ''PETAL'' = 10 / 3"
  "spec_score [''PETAL'', ''PLATE'', ''REACT''] ''PLATE'' = 10 / 3"
  "spec_score [''PETAL'', ''PLATE'', ''REACT''] ''REACT'' = 3"
  by (simp_all add: spec_score_def position_count_def containing_count_def lessThan_Suc
      numeral_eq_Suc)

lemma double_selects_plate:
  "select_initial_word (double_ops lg) [''PETAL'', ''PLATE'', ''REACT''] = Inr ''PLATE''"
proof -
  let ?C = "[''PETAL'', ''PLATE'', ''REACT'']"
  let ?sc = "computed_score (double_ops lg) ?C"
  have ne: "?C \<noteq> []" and five: "\<forall>w\<in>set ?C. length w = 5" by simp_all
  from select_initial_word_spec [OF ne five, of "double_ops lg"]
  obtain k where k: "k < length ?C" "select_initial_word (double_ops lg) ?C = Inr (?C ! k)"
    "\<forall>w\<in>set ?C. ?sc w \<le> ?sc (?C ! k)"
    by blast
  have lt: "?sc ''PETAL'' < ?sc ''PLATE''" "?sc ''REACT'' < ?sc ''PLATE''"
    by (simp_all add: double_score_petal double_score_plate double_score_react)
  from k(1) have "k = 0 \<or> k = 1 \<or> k = 2" by auto
  then have "k = 1"
  proof (elim disjE)
    assume "k = 0"
    with k(3) have "?sc ''PLATE'' \<le> ?sc ''PETAL''" by simp
    with lt(1) show ?thesis by simp
  next
    assume "k = 1"
    then show ?thesis .
  next
    assume "k = 2"
    with k(3) have "?sc ''PLATE'' \<le> ?sc ''REACT''" by simp
    with lt(2) show ?thesis by simp
  qed
  with k(2) show ?thesis by simp
qed

lemma real_selects_petal:
  "select_initial_word real_ops [''PETAL'', ''PLATE'', ''REACT''] = Inr ''PETAL''"
  by (simp add: solver_defs)

section \<open>The error of a score in doubles\<close>

text \<open>A rounding to a double moves a value below 8 by at most \<open>2 ^ - 51\<close>. The score of a
  word is a sum of at most ten terms between 0 and 1, computed with at most twenty-five
  roundings of values below 8, so the computed score is within \<open>25 * 2 ^ - 51\<close> of the
  exact one.\<close>

lemma round_even_error: "\<bar>of_int (round_even y) - y\<bar> \<le> 1 / 2"
proof -
  have "0 \<le> y - of_int \<lfloor>y\<rfloor>" "y - of_int \<lfloor>y\<rfloor> < 1" by linarith+
  then show ?thesis by (auto simp: round_even_def Let_def abs_le_iff)
qed

lemma ilog2_below_eight:
  assumes "0 < x" "x < 8"
  shows "ilog2 x \<le> 2"
proof (rule ccontr)
  assume "\<not> ilog2 x \<le> 2"
  then have "pow2 3 \<le> pow2 (ilog2 x)" by (simp add: pow2_mono)
  then have "8 \<le> x" using ilog2_lower [OF assms(1)] by (simp add: pow2_def)
  with assms(2) show False by simp
qed

lemma round_double_error_pos:
  assumes "0 < x" "x < 8"
  shows "\<bar>round_double x - x\<bar> \<le> pow2 (- 51)"
proof -
  define q where "q = max (ilog2 x) (- 1022) - 52"
  have q: "q \<le> - 50" using ilog2_below_eight [OF assms] by (simp add: q_def)
  have qp: "0 < pow2 q" by (rule pow2_pos)
  have r: "round_double x = of_int (round_even (x / pow2 q)) * pow2 q"
    using round_double_positive [OF assms(1)] by (simp add: q_def)
  have "round_double x - x = (of_int (round_even (x / pow2 q)) - x / pow2 q) * pow2 q"
    using qp by (simp add: r left_diff_distrib)
  then have "\<bar>round_double x - x\<bar> = \<bar>of_int (round_even (x / pow2 q)) - x / pow2 q\<bar> * pow2 q"
    using qp by (simp add: abs_mult)
  also have "\<dots> \<le> 1 / 2 * pow2 q"
    using round_even_error [of "x / pow2 q"] qp by (simp only: mult_right_mono less_imp_le)
  also have "\<dots> \<le> 1 / 2 * pow2 (- 50)" using pow2_mono [OF q] by simp
  also have "\<dots> = pow2 (- 51)" by (simp add: pow2_def)
  finally show ?thesis .
qed

lemma round_double_error:
  assumes "\<bar>x\<bar> < 8"
  shows "\<bar>round_double x - x\<bar> \<le> pow2 (- 51)"
proof -
  consider "x = 0" | "0 < x" | "x < 0" by linarith
  then show ?thesis
  proof cases
    case 1
    then show ?thesis using pow2_pos [of "- 51"] by (simp add: round_double_zero)
  next
    case 2
    then show ?thesis using assms by (simp add: round_double_error_pos)
  next
    case 3
    then have "\<bar>round_double (- x) - (- x)\<bar> \<le> pow2 (- 51)"
      using assms by (intro round_double_error_pos) simp_all
    then show ?thesis by (simp add: round_double_minus abs_le_iff)
  qed
qed

lemma double_add_error:
  assumes "\<bar>s - S\<bar> \<le> E" "\<bar>t - T\<bar> \<le> D" "\<bar>s + t\<bar> < 8"
  shows "\<bar>round_double (s + t) - (S + T)\<bar> \<le> E + D + pow2 (- 51)"
  using assms round_double_error [OF assms(3)] by (simp add: abs_le_iff)

lemma double_step_error:
  assumes s: "\<bar>s - S\<bar> \<le> E" "0 \<le> S" "S \<le> 6" "0 \<le> E" "E \<le> 1 / 8"
    and f: "0 \<le> f" "f \<le> 1" and e: "0 \<le> e" "e \<le> 1"
  shows "\<bar>round_double (s + round_double f) - (S + f)\<bar> \<le> E + 5 * pow2 (- 51)"
    and "\<bar>round_double (round_double (s + round_double f) + round_double (1 / 2 * round_double e))
           - (S + f + 1 / 2 * e)\<bar> \<le> E + 5 * pow2 (- 51)"
proof -
  define d where "d = pow2 (- 51)"
  have d: "0 < d" "d \<le> 1 / 1024" by (simp_all add: d_def pow2_def)
  have ef: "\<bar>round_double f - f\<bar> \<le> d" unfolding d_def using f by (intro round_double_error) simp
  have "\<bar>s + round_double f\<bar> < 8" using s f ef d by (simp add: abs_le_iff abs_less_iff)
  from double_add_error [OF s(1) ef this]
  have e1: "\<bar>round_double (s + round_double f) - (S + f)\<bar> \<le> E + d + d" by (simp add: d_def)
  then show "\<bar>round_double (s + round_double f) - (S + f)\<bar> \<le> E + 5 * pow2 (- 51)"
    using d by (simp add: d_def)
  have ee: "\<bar>round_double e - e\<bar> \<le> d" unfolding d_def using e by (intro round_double_error) simp
  have "\<bar>1 / 2 * round_double e\<bar> < 8" using e ee d by (simp add: abs_le_iff abs_less_iff)
  then have "\<bar>round_double (1 / 2 * round_double e) - 1 / 2 * round_double e\<bar> \<le> d"
    unfolding d_def by (rule round_double_error)
  with ee have eh: "\<bar>round_double (1 / 2 * round_double e) - 1 / 2 * e\<bar> \<le> 2 * d"
    by (simp add: abs_le_iff)
  have "\<bar>round_double (s + round_double f) + round_double (1 / 2 * round_double e)\<bar> < 8"
    using e1 eh s f e d by (simp add: abs_le_iff abs_less_iff)
  from double_add_error [OF e1 eh this]
  show "\<bar>round_double (round_double (s + round_double f) + round_double (1 / 2 * round_double e))
           - (S + f + 1 / 2 * e)\<bar> \<le> E + 5 * pow2 (- 51)"
    by (simp add: d_def)
qed

lemma filter_length_mono:
  assumes "\<forall>x\<in>set xs. P x \<longrightarrow> Q x"
  shows "length (filter P xs) \<le> length (filter Q xs)"
  using assms by (induction xs) auto

lemma count_bounds:
  "0 \<le> position_count C i c \<and> position_count C i c \<le> containing_count C c \<and>
   containing_count C c \<le> int (length C)"
proof -
  have "length (filter (\<lambda>w. i < length w \<and> w ! i = c) C) \<le> length (filter (\<lambda>w. c \<in> set w) C)"
    by (rule filter_length_mono) auto
  then show ?thesis by (simp add: position_count_def containing_count_def)
qed

lemma score_term_parts:
  assumes "C \<noteq> []"
  shows "0 \<le> rat_of_int (position_count C i c) / of_int (int (length C))"
    and "rat_of_int (position_count C i c) / of_int (int (length C)) \<le> 1"
    and "0 \<le> rat_of_int (containing_count C c - position_count C i c) / of_int (int (length C))"
    and "rat_of_int (containing_count C c - position_count C i c) / of_int (int (length C)) \<le> 1"
proof -
  have n: "(0::rat) < of_int (int (length C))" using assms by simp
  have b: "0 \<le> position_count C i c" "position_count C i c \<le> int (length C)"
    "0 \<le> containing_count C c - position_count C i c"
    "containing_count C c - position_count C i c \<le> int (length C)"
    using count_bounds [of C i c] by simp_all
  have r: "(0::rat) \<le> of_int (position_count C i c)"
    "(of_int (position_count C i c)::rat) \<le> of_int (int (length C))"
    "(0::rat) \<le> of_int (containing_count C c - position_count C i c)"
    "(of_int (containing_count C c - position_count C i c)::rat) \<le> of_int (int (length C))"
    using b by (simp_all only: of_int_le_iff of_int_0_le_iff)
  show "0 \<le> rat_of_int (position_count C i c) / of_int (int (length C))"
    using r(1) n by (simp only: divide_nonneg_pos)
  show "rat_of_int (position_count C i c) / of_int (int (length C)) \<le> 1"
    using r(2) n by (simp only: pos_divide_le_eq mult_1)
  show "0 \<le> rat_of_int (containing_count C c - position_count C i c) / of_int (int (length C))"
    using r(3) n by (simp only: divide_nonneg_pos)
  show "rat_of_int (containing_count C c - position_count C i c) / of_int (int (length C)) \<le> 1"
    using r(4) n by (simp only: pos_divide_le_eq mult_1)
qed

lemma score_term_bounds:
  assumes "C \<noteq> []"
  shows "0 \<le> score_term C w i \<and> score_term C w i \<le> 3 / 2"
proof -
  define f where "f = rat_of_int (position_count C i (w ! i)) / of_int (int (length C))"
  define e where "e = rat_of_int (containing_count C (w ! i) - position_count C i (w ! i)) /
    of_int (int (length C))"
  have "0 \<le> f" "f \<le> 1" "0 \<le> e" "e \<le> 1"
    using score_term_parts [OF assms, where i = i and c = "w ! i"] by (simp_all only: f_def e_def)
  moreover have "score_term C w i = f + (if w ! i \<in> set (take i w) then 0 else 1 / 2 * e)"
    by (simp only: score_term_def f_def e_def)
  ultimately show ?thesis by simp
qed

lemma double_step:
  "computed_score_step (double_ops lg) C w s i =
     (if w ! i \<in> set (take i w)
      then round_double (s + round_double (of_int (position_count C i (w ! i)) /
             of_int (int (length C))))
      else round_double (round_double (s + round_double (of_int (position_count C i (w ! i)) /
             of_int (int (length C)))) +
             round_double (1 / 2 * round_double
               (of_int (containing_count C (w ! i) - position_count C i (w ! i)) /
                of_int (int (length C))))))"
  by (simp add: computed_score_step_def double_ops_def Let_def)

lemma double_step_term:
  assumes "C \<noteq> []" "\<bar>s - S\<bar> \<le> E" "0 \<le> S" "S \<le> 6" "0 \<le> E" "E \<le> 1 / 8"
  shows "\<bar>computed_score_step (double_ops lg) C w s i - (S + score_term C w i)\<bar>
           \<le> E + 5 * pow2 (- 51)"
proof -
  note p = score_term_parts [OF assms(1), where i = i and c = "w ! i"]
  note e = double_step_error [OF assms(2-6) p]
  show ?thesis
  proof (cases "w ! i \<in> set (take i w)")
    case True
    then show ?thesis using e(1) by (simp add: double_step score_term_def)
  next
    case False
    then show ?thesis using e(2) by (simp add: double_step score_term_def add.assoc)
  qed
qed

lemma double_fold_error:
  assumes "C \<noteq> []"
  shows "i \<le> 5 \<Longrightarrow>
    \<bar>foldl (computed_score_step (double_ops lg) C w) 0 [0..<i] - (\<Sum>j<i. score_term C w j)\<bar>
        \<le> of_nat (5 * i) * pow2 (- 51) \<and>
    0 \<le> (\<Sum>j<i. score_term C w j) \<and> (\<Sum>j<i. score_term C w j) \<le> 3 / 2 * of_nat i"
proof (induction i)
  case 0
  then show ?case by simp
next
  case (Suc i)
  let ?S = "\<Sum>j<i. score_term C w j"
  let ?s = "foldl (computed_score_step (double_ops lg) C w) 0 [0..<i]"
  let ?E = "of_nat (5 * i) * pow2 (- 51)"
  have i: "i \<le> 4" using Suc.prems by simp
  from Suc.IH i have ih: "\<bar>?s - ?S\<bar> \<le> ?E" "0 \<le> ?S" "?S \<le> 3 / 2 * of_nat i" by simp_all
  have "(of_nat i::rat) \<le> of_nat 4" using i by (simp only: of_nat_le_iff)
  then have i4: "(of_nat i::rat) \<le> 4" by simp
  then have S6: "?S \<le> 6" using ih(3) by simp
  have E0: "0 \<le> ?E" using pow2_pos [of "- 51"] by simp
  have "?E \<le> 20 * pow2 (- 51)" using i4 pow2_pos [of "- 51"] by (simp add: mult_right_mono)
  also have "\<dots> \<le> 1 / 8" by (simp add: pow2_def)
  finally have E8: "?E \<le> 1 / 8" .
  from double_step_term [OF assms ih(1,2) S6 E0 E8, of lg w i]
  have "\<bar>computed_score_step (double_ops lg) C w ?s i - (?S + score_term C w i)\<bar>
           \<le> ?E + 5 * pow2 (- 51)" .
  moreover have "?E + 5 * pow2 (- 51) = of_nat (5 * Suc i) * pow2 (- 51)"
    by (simp add: algebra_simps)
  ultimately have "\<bar>foldl (computed_score_step (double_ops lg) C w) 0 [0..<Suc i] -
      (\<Sum>j<Suc i. score_term C w j)\<bar> \<le> of_nat (5 * Suc i) * pow2 (- 51)"
    by simp
  moreover have "0 \<le> (\<Sum>j<Suc i. score_term C w j)"
    using ih(2) score_term_bounds [OF assms, of w i] by simp
  moreover have "(\<Sum>j<Suc i. score_term C w j) \<le> 3 / 2 * of_nat (Suc i)"
    using ih(3) score_term_bounds [OF assms, of w i] by (simp add: algebra_simps)
  ultimately show ?case by (intro conjI)
qed

lemma spec_score_terms: "spec_score C w = real_of_rat (\<Sum>j<5. score_term C w j)"
proof -
  have "real_of_rat (score_term C w j) =
      real_of_int (position_count C j (w ! j)) / real (length C) +
        (if w ! j \<in> set (take j w) then 0
         else 1 / 2 * (real_of_int (containing_count C (w ! j) - position_count C j (w ! j)) /
                real (length C)))" for j
    by (simp add: score_term_def of_rat_add of_rat_divide of_rat_mult of_rat_diff)
  then show ?thesis by (simp only: spec_score_def of_rat_sum)
qed

lemma double_score_error:
  assumes "C \<noteq> []"
  shows "\<bar>real_of_rat (computed_score (double_ops lg) C w) - spec_score C w\<bar> \<le> 1 / 2 ^ 46"
proof -
  let ?c = "computed_score (double_ops lg) C w"
  let ?S = "\<Sum>j<5. score_term C w j"
  from double_fold_error [OF assms, of 5 lg w]
  have "\<bar>?c - ?S\<bar> \<le> of_nat (5 * 5) * pow2 (- 51)"
    by (simp add: computed_score_def double_ops_def)
  also have "\<dots> \<le> 1 / 2 ^ 46" by (simp add: pow2_def)
  finally have "\<bar>?c - ?S\<bar> \<le> 1 / 2 ^ 46" .
  then have "?c \<le> ?S + 1 / 2 ^ 46" "?S \<le> ?c + 1 / 2 ^ 46" by linarith+
  then have "real_of_rat ?c \<le> real_of_rat (?S + 1 / 2 ^ 46)"
    "real_of_rat ?S \<le> real_of_rat (?c + 1 / 2 ^ 46)"
    by (simp_all only: of_rat_less_eq)
  then have "real_of_rat ?c \<le> real_of_rat ?S + 1 / 2 ^ 46"
    "real_of_rat ?S \<le> real_of_rat ?c + 1 / 2 ^ 46"
    by (simp_all add: of_rat_add of_rat_divide of_rat_power)
  then have "\<bar>real_of_rat ?c - real_of_rat ?S\<bar> \<le> 1 / 2 ^ 46" by linarith
  then show ?thesis by (simp only: spec_score_terms)
qed

lemma double_selects_near_maximum:
  assumes "C \<noteq> []" "\<forall>w\<in>set C. length w = 5"
  shows "\<exists>k<length C. select_initial_word (double_ops lg) C = Inr (C ! k) \<and>
           (\<forall>w\<in>set C. spec_score C w \<le> spec_score C (C ! k) + 1 / 2 ^ 45)"
proof -
  from select_initial_word_spec [OF assms, of "double_ops lg"]
  obtain k where k: "k < length C" "select_initial_word (double_ops lg) C = Inr (C ! k)"
    "\<forall>w\<in>set C. computed_score (double_ops lg) C w \<le> computed_score (double_ops lg) C (C ! k)"
    by blast
  have "spec_score C w \<le> spec_score C (C ! k) + 1 / 2 ^ 45" if "w \<in> set C" for w
  proof -
    have "computed_score (double_ops lg) C w \<le> computed_score (double_ops lg) C (C ! k)"
      using k(3) that by simp
    then have "real_of_rat (computed_score (double_ops lg) C w)
        \<le> real_of_rat (computed_score (double_ops lg) C (C ! k))"
      by (simp only: of_rat_less_eq)
    moreover have "(1::real) / 2 ^ 46 + 1 / 2 ^ 46 = 1 / 2 ^ 45" by simp
    ultimately show ?thesis
      using double_score_error [OF assms(1), of lg w]
        double_score_error [OF assms(1), of lg "C ! k"]
      by linarith
  qed
  with k(1,2) show ?thesis by blast
qed

section \<open>The claims\<close>

text \<open>C1. On a list of five-letter words that contains the answer, and with float
  operations whose quotients are positive, \<open>solve_wordle\<close> returns: the loop ends, the
  last returned attempt is the answer, and the numbers of remaining words printed turn
  after turn never increase, starting from the length of the list. One line is printed per
  attempt, and there are at most as many attempts as words.\<close>

theorem solve_finds_answer:
  fixes ar :: "('f::linorder) float_ops"
  assumes "quotients_positive ar (int (length C))" "\<forall>w\<in>set C. length w = 5" "a \<in> set C"
  shows "\<exists>att out. solve_wordle ar C a = Some (Inr (att, out)) \<and> att \<noteq> [] \<and>
      last att = a \<and> map line_guess out = att \<and> length att \<le> length C \<and>
      sorted_wrt (\<lambda>x y. y \<le> x) (length C # map line_remaining out)"
proof -
  have "C \<noteq> []" "length a = 5" using assms(2,3) by auto
  from solve_wordle_ok [OF assms(1) this(1) assms(2) this(2)] assms(3)
  show ?thesis by auto
qed

theorem solve_finds_answer_witness:
  "quotients_positive real_ops (int (length [''ABCDE'', ''FGHIJ''])) \<and>
   length ''ABCDE'' = 5 \<and> length ''FGHIJ'' = 5 \<and> ''FGHIJ'' \<in> set [''ABCDE'', ''FGHIJ''] \<and>
   (\<exists>att out. solve_wordle real_ops [''ABCDE'', ''FGHIJ''] ''FGHIJ'' = Some (Inr (att, out)) \<and>
      att \<noteq> [] \<and> last att = ''FGHIJ'' \<and> map line_guess out = att \<and>
      length att \<le> length [''ABCDE'', ''FGHIJ''] \<and>
      sorted_wrt (\<lambda>x y. y \<le> x) (length [''ABCDE'', ''FGHIJ''] # map line_remaining out)) \<and>
   solve_wordle real_ops [''ABCDE'', ''FGHIJ''] ''FGHIJ'' =
     Some (Inr ([''ABCDE'', ''FGHIJ''],
                [(1, ''ABCDE'', ''BBBBB'', 1), (2, ''FGHIJ'', ''GGGGG'', 1)]))"
proof -
  have h1: "quotients_positive real_ops (int (length [''ABCDE'', ''FGHIJ'']))"
    by (rule real_ops_quotients_positive)
  have h2: "\<forall>w\<in>set [''ABCDE'', ''FGHIJ'']. length w = 5" by simp
  have h3: "''FGHIJ'' \<in> set [''ABCDE'', ''FGHIJ'']" by simp
  from solve_finds_answer [OF h1 h2 h3] h1 h3 run_two_words show ?thesis by simp
qed

text \<open>C2. Filtering a list of five-letter words by the feedback of a guess against the
  answer succeeds, gives exactly the words whose feedback equals that of the answer, and
  keeps the answer when the list contains it. Hence every state of the loop run on a list
  that contains the answer still has the answer among its remaining words.\<close>

theorem filter_keeps_answer:
  fixes ar :: "('f::linorder) float_ops"
  assumes "a \<in> set C" "length g = 5" "\<forall>w\<in>set C. length w = 5"
  shows "(\<exists>fb. feedback g a = Inr fb \<and>
            filter_remaining g fb C = Inr (filter (\<lambda>w. feedback g w = feedback g a) C)) \<and>
         a \<in> set (filter (\<lambda>w. feedback g w = feedback g a) C) \<and>
         (\<forall>s stop. loop_state ar C a (s, stop) \<longrightarrow> a \<in> set (remaining s))"
proof -
  have "length a = 5" using assms(1,3) by simp
  with feedback_greens [of g a] assms(2) obtain fb where fb: "feedback g a = Inr fb"
    by auto
  have "filter_remaining g fb C = Inr (filter (\<lambda>w. feedback g w = feedback g a) C)"
    using filter_remaining_ok [of g C fb] assms(2,3) fb by simp
  moreover have "\<forall>s stop. loop_state ar C a (s, stop) \<longrightarrow> a \<in> set (remaining s)"
    using loop_state_keeps_answer [of ar C a] assms(1) by fastforce
  ultimately show ?thesis using fb assms(1) by simp
qed

theorem filter_keeps_answer_witness:
  "''FGHIJ'' \<in> set [''ABCDE'', ''FGHIJ''] \<and> length ''ABCDE'' = 5 \<and> length ''FGHIJ'' = 5 \<and>
   loop_state real_ops [''ABCDE'', ''FGHIJ''] ''FGHIJ''
     (\<lparr>remaining = [''FGHIJ''], attempts = [''ABCDE''],
        printed = [(1, ''ABCDE'', ''BBBBB'', 1)]\<rparr>, False) \<and>
   ''FGHIJ'' \<in> set (remaining \<lparr>remaining = [''FGHIJ''], attempts = [''ABCDE''],
        printed = [(1, ''ABCDE'', ''BBBBB'', 1)]\<rparr>) \<and>
   (\<exists>fb. feedback ''ABCDE'' ''FGHIJ'' = Inr fb \<and>
      filter_remaining ''ABCDE'' fb [''ABCDE'', ''FGHIJ''] =
        Inr (filter (\<lambda>w. feedback ''ABCDE'' w = feedback ''ABCDE'' ''FGHIJ'')
               [''ABCDE'', ''FGHIJ''])) \<and>
   ''FGHIJ'' \<in> set (filter (\<lambda>w. feedback ''ABCDE'' w = feedback ''ABCDE'' ''FGHIJ'')
               [''ABCDE'', ''FGHIJ''])"
proof -
  have h1: "''FGHIJ'' \<in> set [''ABCDE'', ''FGHIJ'']" by simp
  have h2: "length ''ABCDE'' = 5" by simp
  have h3: "\<forall>w\<in>set [''ABCDE'', ''FGHIJ'']. length w = 5" by simp
  have st: "loop_state real_ops [''ABCDE'', ''FGHIJ''] ''FGHIJ''
     (\<lparr>remaining = [''FGHIJ''], attempts = [''ABCDE''],
        printed = [(1, ''ABCDE'', ''BBBBB'', 1)]\<rparr>, False)"
    by (rule loop_state.turn [OF loop_state.start turn_two_words])
  from filter_keeps_answer [OF h1 h2 h3, of real_ops] st show ?thesis by simp
qed

text \<open>C3. The feedback of the guess ROBOT against the answer WORLD is the string YGBBB.
  After the first pass only position 1 is green and the letter O of the answer is used up,
  so that the second pass marks the R at position 0 yellow and finds nothing for the
  second O.\<close>

theorem feedback_robot_world:
  "feedback ''ROBOT'' ''WORLD'' = Inr ''YGBBB'' \<and>
   first_pass ''WORLD'' 0 ''ROBOT'' (replicate 5 CHR ''B'') (map Some ''WORLD'') =
     Inr (''BGBBB'', [Some CHR ''W'', None, Some CHR ''R'', Some CHR ''L'', Some CHR ''D''])"
  by (simp add: feedback_def replicate_five)

text \<open>C4. As stated the claim fails: \<open>solve_wordle\<close> has one kind of result, the list of
  attempts, and returns it in the same way when the candidates are exhausted. On the list
  with the single word ABCDE the returned list is the same for the answer ABCDE (solved)
  and for the answer FGHIJ (exhausted).\<close>

theorem exhausted_returns_like_solved:
  "map_option (map_sum id fst) (solve_wordle real_ops [''ABCDE''] ''ABCDE'') =
     Some (Inr [''ABCDE'']) \<and>
   map_option (map_sum id fst) (solve_wordle real_ops [''ABCDE''] ''FGHIJ'') =
     Some (Inr [''ABCDE''])"
  by (simp add: run_one_word_solved run_one_word_exhausted)

text \<open>C4, amended. On a non-empty list of five-letter words and a five-letter answer,
  with float operations whose quotients are positive, \<open>solve_wordle\<close> returns the list of
  attempts without an error in both cases. The two cases differ only in what the list
  holds: its last attempt is the answer exactly when the answer was in the candidate list;
  when it was not, the answer is not among the attempts and the last printed number of
  remaining words is 0.\<close>

theorem solved_iff_last_attempt:
  fixes ar :: "('f::linorder) float_ops"
  assumes "quotients_positive ar (int (length C))" "C \<noteq> []" "\<forall>w\<in>set C. length w = 5"
    "length a = 5"
  shows "\<exists>att out. solve_wordle ar C a = Some (Inr (att, out)) \<and> att \<noteq> [] \<and>
      (last att = a) = (a \<in> set C) \<and>
      (a \<notin> set C \<longrightarrow> a \<notin> set att \<and> line_remaining (last out) = 0)"
proof -
  from solve_wordle_ok [OF assms]
  obtain att out where r: "solve_wordle ar C a = Some (Inr (att, out))" "att \<noteq> []"
    "a \<in> set C \<longrightarrow> last att = a"
    "a \<notin> set C \<longrightarrow> line_remaining (last out) = 0 \<and> a \<notin> set att"
    by blast
  have "(last att = a) = (a \<in> set C)"
    using r(2,3,4) last_in_set [of att] by auto
  then show ?thesis using r by simp
qed

theorem solved_iff_last_attempt_witness:
  "quotients_positive real_ops (int (length [''ABCDE''])) \<and> [''ABCDE''] \<noteq> [] \<and>
   length ''ABCDE'' = 5 \<and> length ''FGHIJ'' = 5 \<and> ''FGHIJ'' \<notin> set [''ABCDE''] \<and>
   (\<exists>att out. solve_wordle real_ops [''ABCDE''] ''FGHIJ'' = Some (Inr (att, out)) \<and>
      att \<noteq> [] \<and> last att \<noteq> ''FGHIJ'' \<and> ''FGHIJ'' \<notin> set att \<and>
      line_remaining (last out) = 0)"
proof -
  have h1: "quotients_positive real_ops (int (length [''ABCDE'']))"
    by (rule real_ops_quotients_positive)
  have h3: "\<forall>w\<in>set [''ABCDE'']. length w = 5" by simp
  from solved_iff_last_attempt [OF h1 _ h3, of "''FGHIJ''"] h1
  show ?thesis by simp
qed

text \<open>C5. As stated the claim fails on the empty list: no attempt is made and the loop is
  not left through the test for an empty candidate list, because the initial selection
  raises \<^verbatim>\<open>ValueError\<close>.\<close>

theorem solve_empty_list_raises:
  "solve_wordle real_ops [] ''ABCDE'' = Some (Inl ValueError)"
  by (rule run_empty)

text \<open>C5, amended. On a non-empty list of five-letter words that does not contain the
  five-letter answer, with float operations whose quotients are positive, \<open>solve_wordle\<close>
  returns after at most as many attempts as there are words; no attempt is the answer and
  the last printed number of remaining words is 0, so the loop is left because the
  candidate list is empty. On the empty list it raises \<^verbatim>\<open>ValueError\<close>. In both cases
  the run ends.\<close>

theorem solve_exhausts_candidates:
  fixes ar :: "('f::linorder) float_ops"
  assumes "quotients_positive ar (int (length C))" "\<forall>w\<in>set C. length w = 5"
    "length a = 5" "a \<notin> set C"
  shows "(C \<noteq> [] \<longrightarrow>
            (\<exists>att out. solve_wordle ar C a = Some (Inr (att, out)) \<and> att \<noteq> [] \<and>
               length att \<le> length C \<and> length out = length att \<and> a \<notin> set att \<and>
               line_remaining (last out) = 0)) \<and>
         (C = [] \<longrightarrow> solve_wordle ar C a = Some (Inl ValueError))"
proof -
  have one: "\<exists>att out. solve_wordle ar C a = Some (Inr (att, out)) \<and> att \<noteq> [] \<and>
               length att \<le> length C \<and> length out = length att \<and> a \<notin> set att \<and>
               line_remaining (last out) = 0" if ne: "C \<noteq> []"
  proof -
    from solve_wordle_ok [OF assms(1) ne assms(2,3)] assms(4)
    obtain att out where r: "solve_wordle ar C a = Some (Inr (att, out))" "att \<noteq> []"
      "map line_guess out = att" "length att \<le> length C"
      "line_remaining (last out) = 0" "a \<notin> set att"
      by blast
    from r(3) have "length out = length att" by (metis length_map)
    then show ?thesis using r by simp
  qed
  have two: "solve_wordle ar [] a = Some (Inl ValueError)"
    unfolding solve_wordle_def
    by (subst solve_loop.simps) (simp add: loop_body_def select_initial_word_def)
  show ?thesis using one two by blast
qed

theorem solve_exhausts_candidates_witness:
  "quotients_positive real_ops (int (length [''ABCDE''])) \<and> [''ABCDE''] \<noteq> [] \<and>
   length ''ABCDE'' = 5 \<and> length ''FGHIJ'' = 5 \<and> ''FGHIJ'' \<notin> set [''ABCDE''] \<and>
   (\<exists>att out. solve_wordle real_ops [''ABCDE''] ''FGHIJ'' = Some (Inr (att, out)) \<and>
      att \<noteq> [] \<and> length att \<le> length [''ABCDE''] \<and> length out = length att \<and>
      ''FGHIJ'' \<notin> set att \<and> line_remaining (last out) = 0)"
proof -
  have h1: "quotients_positive real_ops (int (length [''ABCDE'']))"
    by (rule real_ops_quotients_positive)
  have h2: "\<forall>w\<in>set [''ABCDE'']. length w = 5" by simp
  from solve_exhausts_candidates [OF h1 h2, of "''FGHIJ''"] h1
  show ?thesis by simp
qed

text \<open>C6. As stated the claim fails: the value that \<open>calculate_entropy\<close> returns is a
  double, computed with a rounding at each division, product and subtraction, and not the
  real number \<open>- \<Sum> p * log 2 p\<close>. For the guess ABCDE on the list ABCDE, FGHIJ, FGHIK the
  exact entropy is \<open>log 2 3 - 2 / 3\<close>, which is irrational, while every double is rational:
  whatever \<^verbatim>\<open>math.log2\<close> returns, the value returned differs from the exact entropy.\<close>

theorem rounded_entropy_not_exact:
  "\<forall>lg. \<exists>h. calculate_entropy (double_ops lg) ''ABCDE'' [''ABCDE'', ''FGHIJ'', ''FGHIK''] = Inr h \<and>
     real_of_rat h \<noteq>
       - (\<Sum>k\<in>patterns ''ABCDE'' [''ABCDE'', ''FGHIJ'', ''FGHIK''].
            pattern_prob ''ABCDE'' [''ABCDE'', ''FGHIJ'', ''FGHIK''] k *
            log 2 (pattern_prob ''ABCDE'' [''ABCDE'', ''FGHIJ'', ''FGHIK''] k))"
proof
  fix lg
  from double_entropy_returns [of lg] obtain h where
    h: "calculate_entropy (double_ops lg) ''ABCDE'' [''ABCDE'', ''FGHIJ'', ''FGHIK''] = Inr h"
    by blast
  have "real_of_rat h \<noteq> log 2 3 - 2 / 3"
  proof
    assume "real_of_rat h = log 2 3 - 2 / 3"
    then have "log 2 3 = real_of_rat (h + 2 / 3)" by (simp add: of_rat_add of_rat_divide)
    then show False using log2_3_irrational by blast
  qed
  then show "\<exists>h. calculate_entropy (double_ops lg) ''ABCDE'' [''ABCDE'', ''FGHIJ'', ''FGHIK''] = Inr h \<and>
     real_of_rat h \<noteq>
       - (\<Sum>k\<in>patterns ''ABCDE'' [''ABCDE'', ''FGHIJ'', ''FGHIK''].
            pattern_prob ''ABCDE'' [''ABCDE'', ''FGHIJ'', ''FGHIK''] k *
            log 2 (pattern_prob ''ABCDE'' [''ABCDE'', ''FGHIJ'', ''FGHIK''] k))"
    using h by (simp only: exact_entropy_three_words) blast
qed

text \<open>C6, amended. On a non-empty list of at most \<open>2 ^ 53\<close> five-letter words and a
  five-letter guess, \<open>calculate_entropy\<close> evaluates \<open>- \<Sum> p * log 2 p\<close> over the feedback
  patterns in doubles, with a rounding at each division, product and subtraction. When
  \<^verbatim>\<open>math.log2\<close> has the properties \<open>log2_signs\<close>, the double returned is not negative, and
  it is zero exactly when all words of the list give the same pattern. In exact
  arithmetic the value has the same two properties and is the sum itself.\<close>

theorem entropy_nonnegative_zero_iff:
  assumes "C \<noteq> []" "length g = 5" "\<forall>w\<in>set C. length w = 5" "length C \<le> 2 ^ 53"
    "log2_signs lg"
  shows "(\<exists>h. calculate_entropy (double_ops lg) g C = Inr h \<and> 0 \<le> h \<and>
            (h = 0) = (\<forall>w\<in>set C. \<forall>v\<in>set C. feedback g w = feedback g v)) \<and>
         (\<exists>h. calculate_entropy real_ops g C = Inr h \<and> 0 \<le> h \<and>
            (h = 0) = (\<forall>w\<in>set C. \<forall>v\<in>set C. feedback g w = feedback g v) \<and>
            h = - (\<Sum>k\<in>patterns g C. pattern_prob g C k * log 2 (pattern_prob g C k)))"
proof -
  have "int (length C) \<le> 2 ^ 53" using assms(4) by simp
  with assms(5) have "entropy_signs (double_ops lg) (int (length C))"
    by (rule double_ops_entropy_signs)
  from calculate_entropy_signs [OF this assms(1,2,3)]
  have d: "\<exists>h. calculate_entropy (double_ops lg) g C = Inr h \<and> 0 \<le> h \<and>
            (h = 0) = (\<forall>w\<in>set C. \<forall>v\<in>set C. feedback g w = feedback g v)"
    by (simp add: double_ops_def)
  from calculate_entropy_signs [OF real_ops_entropy_signs assms(1,2,3)]
  obtain h where h: "calculate_entropy real_ops g C = Inr h" "0 \<le> h"
    "(h = 0) = (\<forall>w\<in>set C. \<forall>v\<in>set C. feedback g w = feedback g v)"
    unfolding real_ops_def by auto
  have "h = - (\<Sum>k\<in>patterns g C. pattern_prob g C k * log 2 (pattern_prob g C k))"
    using calculate_entropy_real [OF assms(1,2,3)] h(1) by simp
  with h have "\<exists>h. calculate_entropy real_ops g C = Inr h \<and> 0 \<le> h \<and>
            (h = 0) = (\<forall>w\<in>set C. \<forall>v\<in>set C. feedback g w = feedback g v) \<and>
            h = - (\<Sum>k\<in>patterns g C. pattern_prob g C k * log 2 (pattern_prob g C k))"
    by (intro exI [of _ h] conjI)
  with d show ?thesis by (rule conjI)
qed

theorem entropy_nonnegative_zero_iff_witness:
  "[''ABCDE'', ''FGHIJ''] \<noteq> [] \<and> length ''ABCDE'' = 5 \<and> length ''FGHIJ'' = 5 \<and>
   length [''ABCDE'', ''FGHIJ''] \<le> 2 ^ 53 \<and> log2_signs (\<lambda>x. of_int (ilog2 x)) \<and>
   (\<exists>h. calculate_entropy (double_ops (\<lambda>x. of_int (ilog2 x))) ''ABCDE'' [''ABCDE'', ''FGHIJ'']
      = Inr h \<and> 0 \<le> h \<and> h \<noteq> 0) \<and>
   calculate_entropy (double_ops (\<lambda>x. of_int (ilog2 x))) ''ABCDE'' [''ABCDE'', ''FGHIJ''] = Inr 1 \<and>
   (\<exists>h. calculate_entropy real_ops ''ABCDE'' [''ABCDE'', ''FGHIJ''] = Inr h \<and> 0 \<le> h \<and>
      h \<noteq> 0) \<and>
   calculate_entropy real_ops ''ABCDE'' [''ABCDE'', ''FGHIJ''] = Inr 1 \<and>
   \<not> (\<forall>w\<in>set [''ABCDE'', ''FGHIJ'']. \<forall>v\<in>set [''ABCDE'', ''FGHIJ''].
        feedback ''ABCDE'' w = feedback ''ABCDE'' v)"
proof -
  have h3: "\<forall>w\<in>set [''ABCDE'', ''FGHIJ'']. length w = 5" by simp
  have h4: "length [''ABCDE'', ''FGHIJ''] \<le> 2 ^ 53" by simp
  have d: "\<not> (\<forall>w\<in>set [''ABCDE'', ''FGHIJ'']. \<forall>v\<in>set [''ABCDE'', ''FGHIJ''].
        feedback ''ABCDE'' w = feedback ''ABCDE'' v)"
    by (simp add: feedback_def replicate_five)
  from entropy_nonnegative_zero_iff [OF _ _ h3 h4 floor_log2_signs, of "''ABCDE''"]
    d floor_log2_signs entropy_two_words double_entropy_two_words
  show ?thesis by simp
qed

text \<open>C7. As stated the claim fails: the scores that \<open>select_initial_word\<close> compares are
  doubles. On the list PETAL, PLATE, REACT the score of the specification is \<open>10 / 3\<close> for
  PETAL and for PLATE and \<open>3\<close> for REACT, so that the first word that attains the maximum
  is PETAL; in doubles the sum of PETAL is rounded below the sum of PLATE, and PLATE is
  returned.\<close>

theorem rounding_breaks_tie:
  "(\<forall>lg. select_initial_word (double_ops lg) [''PETAL'', ''PLATE'', ''REACT''] = Inr ''PLATE'') \<and>
   spec_score [''PETAL'', ''PLATE'', ''REACT''] ''PETAL'' = 10 / 3 \<and>
   spec_score [''PETAL'', ''PLATE'', ''REACT''] ''PLATE'' = 10 / 3 \<and>
   spec_score [''PETAL'', ''PLATE'', ''REACT''] ''REACT'' = 3"
  using double_selects_plate exact_scores by simp

text \<open>C7, amended. On a non-empty list of five-letter words, and whatever the float
  operations are, the initial selection returns the first word of the list that attains
  the maximum of the score as the code computes it: the float operations applied position
  by position, with a rounding at each quotient, product and sum. Every word before it in
  the list has a strictly smaller computed score. In doubles the computed score of a word
  is within \<open>2 ^ - 46\<close> of the score of the specification, so that no word of the list has a
  score of the specification more than \<open>2 ^ - 45\<close> above that of the word returned. With
  exact arithmetic the word returned is the first word that attains the maximum of the
  score of the specification.\<close>

theorem select_initial_first_maximum:
  fixes ar :: "('f::linorder) float_ops"
  assumes "C \<noteq> []" "\<forall>w\<in>set C. length w = 5"
  shows "(\<exists>k<length C. select_initial_word ar C = Inr (C ! k) \<and>
            (\<forall>w\<in>set C. computed_score ar C w \<le> computed_score ar C (C ! k)) \<and>
            (\<forall>j<k. computed_score ar C (C ! j) < computed_score ar C (C ! k))) \<and>
         (\<exists>k<length C. select_initial_word (double_ops lg) C = Inr (C ! k) \<and>
            (\<forall>w\<in>set C. spec_score C w \<le> spec_score C (C ! k) + 1 / 2 ^ 45)) \<and>
         (\<exists>k<length C. select_initial_word real_ops C = Inr (C ! k) \<and>
            (\<forall>w\<in>set C. spec_score C w \<le> spec_score C (C ! k)) \<and>
            (\<forall>j<k. spec_score C (C ! j) < spec_score C (C ! k)))"
  using select_initial_word_spec [OF assms, of ar]
    double_selects_near_maximum [OF assms, of lg]
    select_initial_word_spec [OF assms, of real_ops]
  by (simp add: computed_score_exact)

theorem select_initial_first_maximum_witness:
  "[''PETAL'', ''PLATE'', ''REACT''] \<noteq> [] \<and>
   length ''PETAL'' = 5 \<and> length ''PLATE'' = 5 \<and> length ''REACT'' = 5 \<and>
   (\<exists>k<length [''PETAL'', ''PLATE'', ''REACT''].
      select_initial_word (double_ops (\<lambda>x. 0)) [''PETAL'', ''PLATE'', ''REACT''] =
        Inr ([''PETAL'', ''PLATE'', ''REACT''] ! k) \<and>
      (\<forall>w\<in>set [''PETAL'', ''PLATE'', ''REACT''].
         spec_score [''PETAL'', ''PLATE'', ''REACT''] w
           \<le> spec_score [''PETAL'', ''PLATE'', ''REACT'']
               ([''PETAL'', ''PLATE'', ''REACT''] ! k) + 1 / 2 ^ 45)) \<and>
   select_initial_word (double_ops (\<lambda>x. 0)) [''PETAL'', ''PLATE'', ''REACT''] = Inr ''PLATE'' \<and>
   (\<exists>k<length [''PETAL'', ''PLATE'', ''REACT''].
      select_initial_word real_ops [''PETAL'', ''PLATE'', ''REACT''] =
        Inr ([''PETAL'', ''PLATE'', ''REACT''] ! k) \<and>
      (\<forall>w\<in>set [''PETAL'', ''PLATE'', ''REACT''].
         spec_score [''PETAL'', ''PLATE'', ''REACT''] w
           \<le> spec_score [''PETAL'', ''PLATE'', ''REACT'']
               ([''PETAL'', ''PLATE'', ''REACT''] ! k)) \<and>
      (\<forall>j<k. spec_score [''PETAL'', ''PLATE'', ''REACT'']
                 ([''PETAL'', ''PLATE'', ''REACT''] ! j)
               < spec_score [''PETAL'', ''PLATE'', ''REACT'']
                   ([''PETAL'', ''PLATE'', ''REACT''] ! k))) \<and>
   select_initial_word real_ops [''PETAL'', ''PLATE'', ''REACT''] = Inr ''PETAL''"
proof -
  have h2: "\<forall>w\<in>set [''PETAL'', ''PLATE'', ''REACT'']. length w = 5" by simp
  from select_initial_first_maximum [OF _ h2, where ar = real_ops and lg = "\<lambda>x. 0"]
    real_selects_petal double_selects_plate
  show ?thesis by simp
qed

text \<open>C8. On an empty list both selections raise \<^verbatim>\<open>ValueError\<close>, the error of
  \<^verbatim>\<open>max\<close> on an empty dictionary; neither returns a word.\<close>

theorem selectors_reject_empty:
  fixes ar :: "('f::linorder) float_ops"
  shows "select_initial_word ar [] = Inl ValueError \<and>
         select_best_entropy_word ar [] = Inl ValueError"
  by (simp add: select_initial_word_def select_best_entropy_word_def)

text \<open>C9. The feedback of a five-letter word against itself is GGGGG.\<close>

theorem feedback_same_word:
  assumes "length w = 5"
  shows "feedback w w = Inr ''GGGGG''"
  using assms by (rule feedback_self)

theorem feedback_same_word_witness:
  "length ''CRANE'' = 5 \<and> feedback ''CRANE'' ''CRANE'' = Inr ''GGGGG''"
  using feedback_same_word [of "''CRANE''"] by simp

text \<open>C10. For five-letter words the feedback is GGGGG only when the guess is the answer.
  So a guess different from the answer is not among the words that the loop keeps, and
  when the guess was in the list the kept list is strictly shorter.\<close>

theorem all_green_only_for_answer:
  assumes "length g = 5" "length a = 5" "\<forall>w\<in>set C. length w = 5"
  shows "(feedback g a = Inr ''GGGGG'' \<longrightarrow> g = a) \<and>
         (g \<noteq> a \<longrightarrow>
            (\<exists>fb R. feedback g a = Inr fb \<and> filter_remaining g fb C = Inr R \<and>
               g \<notin> set R \<and> (g \<in> set C \<longrightarrow> length R < length C)))"
proof -
  have one: "feedback g a = Inr ''GGGGG'' \<longrightarrow> g = a"
    using feedback_all_green_iff [OF assms(1,2)] by simp
  have two: "\<exists>fb R. feedback g a = Inr fb \<and> filter_remaining g fb C = Inr R \<and>
               g \<notin> set R \<and> (g \<in> set C \<longrightarrow> length R < length C)" if ne: "g \<noteq> a"
  proof -
    from feedback_greens [of g a] assms(1,2) obtain fb where fb: "feedback g a = Inr fb"
      by auto
    let ?R = "filter (\<lambda>w. feedback g w = Inr fb) C"
    have R: "filter_remaining g fb C = Inr ?R"
      using filter_remaining_ok [of g C fb] assms(1,3) by simp
    have out: "g \<notin> set ?R" using assms(1,2) ne fb by (rule wrong_guess_removed)
    then have "g \<in> set C \<longrightarrow> length ?R < length C"
      by (simp add: length_filter_less)
    then show ?thesis using fb R out by blast
  qed
  show ?thesis using one two by blast
qed

theorem all_green_only_for_answer_witness:
  "length ''CRANE'' = 5 \<and> length ''SLATE'' = 5 \<and> ''CRANE'' \<noteq> ''SLATE'' \<and>
   ''CRANE'' \<in> set [''CRANE'', ''SLATE''] \<and>
   feedback ''CRANE'' ''SLATE'' \<noteq> Inr ''GGGGG'' \<and>
   (\<exists>fb R. feedback ''CRANE'' ''SLATE'' = Inr fb \<and>
      filter_remaining ''CRANE'' fb [''CRANE'', ''SLATE''] = Inr R \<and>
      ''CRANE'' \<notin> set R \<and> length R < length [''CRANE'', ''SLATE''])"
proof -
  have h3: "\<forall>w\<in>set [''CRANE'', ''SLATE'']. length w = 5" by simp
  from all_green_only_for_answer [of "''CRANE''" "''SLATE''", OF _ _ h3]
  show ?thesis by simp
qed

end
